theory Spec2Isabelle
  imports Main "HOL-Library.Multiset"
begin

section \<open>JavaScript strings and the two regular expressions of \<open>context.ts\<close>\<close>

text \<open>
  Strings are lists of characters. Isabelle characters are 8 bit wide, so the model covers
  the JavaScript strings whose code units lie below 256; of the four line terminators that
  the regular-expression dot refuses (LF, CR, U+2028, U+2029) the first two exist here.
  Frame indices are array positions, far below the range where JavaScript numbers stop
  being exact, so they are natural numbers and \<open>parseInt\<close> and the template literal
  \<open>${frameIndex}\<close> are exact decimal conversions.
\<close>

definition isDigit :: "char \<Rightarrow> bool" where
  "isDigit c \<longleftrightarrow> 48 \<le> (of_char c :: nat) \<and> (of_char c :: nat) \<le> 57"

definition lineTerminator :: "char \<Rightarrow> bool" where
  "lineTerminator c \<longleftrightarrow> c = CHR 0x0A \<or> c = CHR 0x0D"

definition digitChar :: "nat \<Rightarrow> char" where
  "digitChar d = char_of (48 + d)"

definition digitVal :: "char \<Rightarrow> nat" where
  "digitVal c = of_char c - 48"

text \<open>The template literal \<open>`${frameIndex}`\<close>: decimal digits, no leading zero.\<close>

fun numberToString :: "nat \<Rightarrow> string" where
  "numberToString n =
     (if n < 10 then [digitChar n] else numberToString (n div 10) @ [digitChar (n mod 10)])"

declare numberToString.simps [simp del]

text \<open>\<open>parseInt(digits, 10)\<close> on a string matched by \<open>\d+\<close>.\<close>

definition parseInt :: "string \<Rightarrow> nat" where
  "parseInt ds = foldl (\<lambda>acc c. 10 * acc + digitVal c) 0 ds"

definition startsWith :: "string \<Rightarrow> string \<Rightarrow> bool" where
  "startsWith s p \<longleftrightarrow> take (length p) s = p"

text \<open>
  \<open>String.prototype.replace\<close> with a string pattern: the first occurrence only.
\<close>

fun replace :: "string \<Rightarrow> string \<Rightarrow> string \<Rightarrow> string" where
  "replace [] pat rep = (if pat = [] then rep else [])"
| "replace (c # cs) pat rep =
     (if startsWith (c # cs) pat then rep @ drop (length pat) (c # cs)
      else c # replace cs pat rep)"

text \<open>
  \<open>value.match(/\[ref=(.*)\]/)?.[1]\<close>: the leftmost \<open>[ref=\<close> that is followed, before the
  next line terminator, by a closing bracket; the group is greedy and ends at the last
  closing bracket of that line.
\<close>

definition refGroup :: "string \<Rightarrow> string option" where
  "refGroup rest =
     (let line = takeWhile (\<lambda>c. \<not> lineTerminator c) rest in
      if CHR '']'' \<in> set line
      then Some (rev (tl (dropWhile (\<lambda>c. c \<noteq> CHR '']'') (rev line))))
      else None)"

fun matchRef :: "string \<Rightarrow> string option" where
  "matchRef [] = None"
| "matchRef (c # cs) =
     (if startsWith (c # cs) ''[ref=''
      then (case refGroup (drop 5 (c # cs)) of
              Some r \<Rightarrow> Some r
            | None \<Rightarrow> matchRef cs)
      else matchRef cs)"

text \<open>
  \<open>ref.match(/^f(\d+)(.*)/)\<close>: the two groups, the digits (greedy, at least one) and the
  rest of the first line.
\<close>

definition matchFrameRef :: "string \<Rightarrow> (string \<times> string) option" where
  "matchFrameRef ref =
     (case ref of
        [] \<Rightarrow> None
      | c # rest \<Rightarrow>
          if c = CHR ''f'' \<and> takeWhile isDigit rest \<noteq> []
          then Some (takeWhile isDigit rest,
                     takeWhile (\<lambda>c. \<not> lineTerminator c) (dropWhile isDigit rest))
          else None)"

section \<open>The page as the driver shows it\<close>

text \<open>
  The YAML tree that \<open>yaml.parseDocument\<close> builds from an aria snapshot: string scalars,
  pairs, sequences and maps. \<open>Other\<close> stands for every node that \<open>visit\<close> returns untouched
  (a scalar that is not a string, an alias, \<open>null\<close>). \<open>Await i\<close> does not come from the
  parser: it marks the value of a pair that is still waiting for the snapshot of frame
  \<open>i\<close>, the pending \<open>await this._snapshotFrame(...)\<close>.
\<close>

datatype node =
    Scalar string
  | Other
  | YAMLPair node node
  | YAMLSeq "node list"
  | YAMLMap "node list"
  | Await nat

text \<open>
  A page or frame locator is identified with the frame it denotes while the snapshot is
  taken: what \<open>frame.locator('body').ariaSnapshot(...)\<close> followed by \<open>yaml.parseDocument\<close>
  gives (\<open>None\<close> when the driver call throws), and the frames that
  \<open>frame.frameLocator('aria-ref=...')\<close> reaches, by reference.
\<close>

datatype frame = Frame (ariaSnapshot: "node option") (subframes: "(string \<times> frame) list")

text \<open>A locator to a frame that is not there: taking its snapshot throws.\<close>

definition detached :: frame where
  "detached = Frame None []"

definition frameLocator :: "frame \<Rightarrow> string \<Rightarrow> frame" where
  "frameLocator fr ref = (case map_of (subframes fr) ref of Some f \<Rightarrow> f | None \<Rightarrow> detached)"

section \<open>Resolving a reference: \<open>PageSnapshot.refLocator\<close> and \<open>Tab.snapshotOrDie\<close>\<close>

datatype error =
    FrameDoesNotExist
  | NoSnapshotAvailable
  | NoCurrentSnapshot
  | DriverError string

record pageSnapshot =
  frameLocators :: "frame list"
  snapshotText :: string

text \<open>\<open>frame.locator(selector)\<close>: the frame and the selector.\<close>

datatype locator = Locator frame string

text \<open>Array indexing: \<open>undefined\<close> outside the array.\<close>

definition at :: "'a list \<Rightarrow> nat \<Rightarrow> 'a option" where
  "at xs i = (if i < length xs then Some (xs ! i) else None)"

definition refLocator :: "pageSnapshot \<Rightarrow> string \<Rightarrow> error + locator" where
  "refLocator s ref =
     (let frame0 = at (frameLocators s) 0;
          (frame, ref') =
            (case matchFrameRef ref of
               Some (digits, rest) \<Rightarrow> (at (frameLocators s) (parseInt digits), rest)
             | None \<Rightarrow> (frame0, ref))
      in case frame of
           None \<Rightarrow> Inl FrameDoesNotExist
         | Some f \<Rightarrow> Inr (Locator f (''aria-ref='' @ ref')))"

text \<open>
  The frame index and the frame-local id that \<open>refLocator\<close> reads off a reference
  (the spec's \<open>decode\<close>).
\<close>

definition decode :: "string \<Rightarrow> nat \<times> string" where
  "decode ref =
     (case matchFrameRef ref of
        Some (digits, rest) \<Rightarrow> (parseInt digits, rest)
      | None \<Rightarrow> (0, ref))"

text \<open>
  The spec's \<open>encode\<close>, in its words: the id unchanged for frame 0, otherwise
  \<open>"f" + frameIndex + localId\<close>. In the code it is the effect of
  \<open>value.replace('[ref=', `[ref=f${frameIndex}`)\<close> on the text after the marker.
\<close>

definition encode :: "nat \<Rightarrow> string \<Rightarrow> string" where
  "encode frameIndex localId =
     (if frameIndex = 0 then localId else ''f'' @ numberToString frameIndex @ localId)"

text \<open>
  The pairs on which the codec is unambiguous. For frame 0 the reference is the id itself
  and must not look like a prefixed one (\<open>f\<close> and a digit); for a nested frame the id must
  not begin with a digit, which would run into the index, nor hold a line terminator, where
  the second group of the expression stops.
\<close>

definition roundTrips :: "nat \<Rightarrow> string \<Rightarrow> bool" where
  "roundTrips frameIndex localId \<longleftrightarrow>
     (if frameIndex = 0
      then (case localId of
              c # d # _ \<Rightarrow> \<not> (c = CHR ''f'' \<and> isDigit d)
            | _ \<Rightarrow> True)
      else (case localId of [] \<Rightarrow> True | c # _ \<Rightarrow> \<not> isDigit c)
           \<and> list_all (\<lambda>c. \<not> lineTerminator c) localId)"

text \<open>\<open>Tab.snapshotOrDie\<close>, on the tab's \<open>_snapshot\<close> field.\<close>

definition snapshotOrDie :: "pageSnapshot option \<Rightarrow> error + pageSnapshot" where
  "snapshotOrDie snapshot =
     (case snapshot of None \<Rightarrow> Inl NoSnapshotAvailable | Some s \<Rightarrow> Inr s)"

text \<open>
  How a tool resolves a reference, as the action of \<open>browser_scroll_to_element\<close> does:
  \<open>tab.snapshotOrDie().refLocator(ref)\<close>, on the tab's \<open>_snapshot\<close> field.
\<close>

definition resolve :: "pageSnapshot option \<Rightarrow> string \<Rightarrow> error + locator" where
  "resolve snapshot ref =
     (case snapshotOrDie snapshot of Inl e \<Rightarrow> Inl e | Inr s \<Rightarrow> refLocator s ref)"

section \<open>The session: \<open>Context\<close>\<close>

text \<open>
  A \<open>Tab\<close> object is known by its identity, a number; the session's \<open>_tabs\<close> is the list of
  the open tabs and \<open>_currentTab\<close> one of them or \<open>undefined\<close>. The \<open>_snapshot\<close> field of every
  tab is kept in the \<open>snapshots\<close> store of the session.
\<close>

type_synonym tab = nat

datatype modalType = Dialog | FileChooser

text \<open>
  A \<open>ModalState\<close>: its type, its description and the driver's dialog or file chooser
  object (a number). The session stores a copy of it with the tab it belongs to; the copy
  is a new object, known by its identity \<open>oid\<close>.
\<close>

record modalState =
  mtype :: modalType
  description :: string
  handle :: nat

record tabModalState = modalState +
  tab :: tab
  oid :: nat

text \<open>A tool, as far as the session looks at it: its name and the modal state it clears.\<close>

record tool =
  name :: string
  clearsModalState :: "modalType option"

record Context =
  tools :: "tool list"
  tabs :: "tab list"
  currentTab :: "tab option"
  modalStates :: "tabModalState list"
  pendingAction :: bool
  browserContext :: bool
  snapshots :: "tab \<Rightarrow> pageSnapshot option"
  allocated :: nat

text \<open>
  \<open>this._modalStates.push({ ...modalState, tab: inTab })\<close>: the object pushed is new at
  every call. \<open>allocated\<close> counts the objects the session has made so far and gives the next
  identity.
\<close>

definition setModalState :: "modalState \<Rightarrow> tab \<Rightarrow> Context \<Rightarrow> Context" where
  "setModalState modalState inTab c =
     c\<lparr>modalStates := modalStates c @
        [\<lparr>mtype = mtype modalState, description = description modalState,
          handle = handle modalState, tab = inTab, oid = allocated c\<rparr>],
       allocated := Suc (allocated c)\<rparr>"

text \<open>
  \<open>clearModalState\<close> filters by object identity, \<open>state !== modalState\<close>: two stored
  objects are the same object when they agree in every field, their identity included.
\<close>

definition clearModalState :: "tabModalState \<Rightarrow> Context \<Rightarrow> Context" where
  "clearModalState modalState c =
     c\<lparr>modalStates := filter (\<lambda>state. state \<noteq> modalState) (modalStates c)\<rparr>"

definition javaScriptBlocked :: "Context \<Rightarrow> bool" where
  "javaScriptBlocked c \<longleftrightarrow> list_ex (\<lambda>state. mtype state = Dialog) (modalStates c)"

text \<open>
  \<open>dialogShown\<close>: the modal state is recorded and the signal of the pending action, when one
  is armed, is resolved. The second component says whether a signal was resolved.
\<close>

definition dialogShown :: "tab \<Rightarrow> string \<Rightarrow> nat \<Rightarrow> Context \<Rightarrow> Context \<times> bool" where
  "dialogShown t descr dialog c =
     (setModalState \<lparr>mtype = Dialog, description = descr, handle = dialog\<rparr> t c,
      pendingAction c)"

text \<open>\<open>Array.prototype.indexOf\<close>: the first position, or \<open>-1\<close>.\<close>

fun indexOf :: "'a list \<Rightarrow> 'a \<Rightarrow> int" where
  "indexOf [] x = -1"
| "indexOf (y # ys) x =
     (if y = x then 0 else (let i = indexOf ys x in if i = -1 then -1 else i + 1))"

text \<open>Array indexing by a number that may be negative: \<open>undefined\<close> outside the array.\<close>

definition atInt :: "'a list \<Rightarrow> int \<Rightarrow> 'a option" where
  "atInt xs i = (if 0 \<le> i \<and> i < int (length xs) then Some (xs ! nat i) else None)"

text \<open>\<open>xs.splice(index, 1)\<close> for an index of the array.\<close>

definition splice1 :: "'a list \<Rightarrow> int \<Rightarrow> 'a list" where
  "splice1 xs index = take (nat index) xs @ drop (Suc (nat index)) xs"

text \<open>
  \<open>close\<close>: the browser context is forgotten at once; closing it in the driver is awaited
  and its errors are swallowed.
\<close>

definition close :: "Context \<Rightarrow> Context" where
  "close c = (if \<not> browserContext c then c else c\<lparr>browserContext := False\<rparr>)"

definition onPageCreated :: "tab \<Rightarrow> Context \<Rightarrow> Context" where
  "onPageCreated t c =
     (let c1 = c\<lparr>tabs := tabs c @ [t]\<rparr>
      in if currentTab c1 = None then c1\<lparr>currentTab := Some t\<rparr> else c1)"

definition onPageClosed :: "tab \<Rightarrow> Context \<Rightarrow> Context" where
  "onPageClosed t c =
     (let c1 = c\<lparr>modalStates := filter (\<lambda>state. tab state \<noteq> t) (modalStates c)\<rparr>;
          index = indexOf (tabs c1) t
      in if index = -1 then c1
         else
           let c2 = c1\<lparr>tabs := splice1 (tabs c1) index\<rparr>;
               c3 = (if currentTab c2 = Some t
                     then c2\<lparr>currentTab :=
                            atInt (tabs c2) (min index (int (length (tabs c2)) - 1))\<rparr>
                     else c2)
           in if browserContext c3 \<and> tabs c3 = [] then close c3 else c3)"

text \<open>
  \<open>selectTab(index)\<close>: the current tab is assigned first; bringing an \<open>undefined\<close> tab to
  the front then throws.
\<close>

datatype jsError = TypeError

definition selectTab :: "int \<Rightarrow> Context \<Rightarrow> (jsError + unit) \<times> Context" where
  "selectTab index c =
     (let c1 = c\<lparr>currentTab := atInt (tabs c) (index - 1)\<rparr>
      in (if currentTab c1 = None then Inl TypeError else Inr (), c1))"

text \<open>
  \<open>waitForTimeout\<close>: which wait is performed, a timer of the given number of milliseconds
  inside the page of a tab (\<open>page.evaluate\<close>) or a timer of the server itself.
\<close>

datatype 'time wait = PageTimer tab nat | ServerTimer 'time

definition waitForTimeout :: "'time \<Rightarrow> Context \<Rightarrow> 'time wait" where
  "waitForTimeout time c =
     (case currentTab c of
        Some t \<Rightarrow> if \<not> javaScriptBlocked c then PageTimer t 1000 else ServerTimer time
      | None \<Rightarrow> ServerTimer time)"

text \<open>
  The operations that change the tab list or the modal states, as one step function:
  the two page events, the file chooser and dialog events of a tab, and the two public
  methods on modal states.
\<close>

datatype operation =
    PageCreated tab
  | PageClosed tab
  | SetModalState modalState tab
  | ClearModalState tabModalState
  | DialogShown tab string nat
  | SelectTab int
  | Close

fun perform :: "operation \<Rightarrow> Context \<Rightarrow> Context" where
  "perform (PageCreated t) c = onPageCreated t c"
| "perform (PageClosed t) c = onPageClosed t c"
| "perform (SetModalState m t) c = setModalState m t c"
| "perform (ClearModalState m) c = clearModalState m c"
| "perform (DialogShown t descr d) c = fst (dialogShown t descr d c)"
| "perform (SelectTab i) c = snd (selectTab i c)"
| "perform Close c = close c"

text \<open>Every active modal state belongs to an open tab.\<close>

definition modalTabsOpen :: "Context \<Rightarrow> bool" where
  "modalTabsOpen c \<longleftrightarrow> list_all (\<lambda>state. tab state \<in> set (tabs c)) (modalStates c)"

text \<open>The operation is given a tab that is open, when it is given one to tag a state.\<close>

fun tagsOpenTab :: "operation \<Rightarrow> Context \<Rightarrow> bool" where
  "tagsOpenTab (SetModalState m t) c \<longleftrightarrow> t \<in> set (tabs c)"
| "tagsOpenTab (DialogShown t descr d) c \<longleftrightarrow> t \<in> set (tabs c)"
| "tagsOpenTab _ c \<longleftrightarrow> True"

text \<open>The session as its constructor leaves it.\<close>

definition newContext :: Context where
  "newContext = \<lparr>tools = [], tabs = [], currentTab = None, modalStates = [], pendingAction = False,
               browserContext = False, snapshots = (\<lambda>_. None), allocated = 0\<rparr>"

section \<open>Taking a snapshot: \<open>PageSnapshot._snapshotFrame\<close> and \<open>_build\<close>\<close>

text \<open>
  \<open>_snapshotFrame\<close> is an \<open>async\<close> function. Its body runs synchronously up to its first
  \<open>await\<close>: the frame is pushed on \<open>_frameLocators\<close>, which fixes \<open>frameIndex\<close>, the driver
  is asked for the aria snapshot, and the call is suspended. When the driver's answer
  arrives the rest of the body runs, again without interruption: the answer is parsed and
  \<open>visit\<close> walks the whole tree, because \<open>Promise.all\<close> is handed the calls
  \<open>visit(node.key)\<close>, \<open>visit(node.value)\<close> and \<open>node.items.map(visit)\<close> already made. Every
  string scalar that denotes an iframe makes, inside that walk, the nested call
  \<open>this._snapshotFrame(frame.frameLocator(...))\<close>, which pushes the nested frame at once and
  is suspended in its turn. So one walk pushes all the iframes of one frame, in document
  order, and leaves one suspended call for each of them; in which order the driver
  answers those calls is not in the hands of the code.

  \<open>visit\<close> below is that synchronous walk. It threads \<open>_frameLocators\<close> and returns the
  node that replaces the one visited, with \<open>Await i\<close> where the value of the new pair is the
  awaited snapshot of frame \<open>i\<close>.
\<close>

definition placeholder :: string where
  "placeholder = ''<could not take iframe snapshot>''"

text \<open>\<open>if (frameIndex > 0) node.value = value.replace('[ref=', `[ref=f${frameIndex}`)\<close>\<close>

definition rewriteRef :: "nat \<Rightarrow> string \<Rightarrow> string" where
  "rewriteRef frameIndex value =
     (if frameIndex > 0
      then replace value ''[ref='' (''[ref=f'' @ numberToString frameIndex)
      else value)"

fun visit :: "frame \<Rightarrow> nat \<Rightarrow> node \<Rightarrow> frame list \<Rightarrow> node \<times> frame list"
  and visitItems :: "frame \<Rightarrow> nat \<Rightarrow> node list \<Rightarrow> frame list \<Rightarrow> node list \<times> frame list"
where
  "visit frame frameIndex (YAMLPair key val) fl =
     (let (k, fl1) = visit frame frameIndex key fl;
          (v, fl2) = visit frame frameIndex val fl1
      in (YAMLPair k v, fl2))"
| "visit frame frameIndex (YAMLSeq items) fl =
     (let (items', fl') = visitItems frame frameIndex items fl in (YAMLSeq items', fl'))"
| "visit frame frameIndex (YAMLMap items) fl =
     (let (items', fl') = visitItems frame frameIndex items fl in (YAMLMap items', fl'))"
| "visit frame frameIndex (Scalar value) fl =
     (let value' = rewriteRef frameIndex value
      in if startsWith value ''iframe ''
         then (case matchRef value of
                 Some ref \<Rightarrow>
                   if ref \<noteq> []
                   then (YAMLPair (Scalar value') (Await (length fl)),
                         fl @ [frameLocator frame ref])
                   else (Scalar value', fl)
               | None \<Rightarrow> (Scalar value', fl))
         else (Scalar value', fl))"
| "visit frame frameIndex Other fl = (Other, fl)"
| "visit frame frameIndex (Await i) fl = (Await i, fl)"
| "visitItems frame frameIndex [] fl = ([], fl)"
| "visitItems frame frameIndex (item # items) fl =
     (let (n, fl1) = visit frame frameIndex item fl;
          (ns, fl2) = visitItems frame frameIndex items fl1
      in (n # ns, fl2))"

text \<open>
  What the document of a frame holds after \<open>await visit(snapshot.contents)\<close>. Pairs and
  collections were changed in place, so the contents are what \<open>visit\<close> returned; the
  value \<open>visit\<close> returns for the contents themselves is dropped, so contents that are a
  single scalar stay that scalar, with its rewritten text.
\<close>

definition visitContents :: "frame \<Rightarrow> nat \<Rightarrow> node \<Rightarrow> frame list \<Rightarrow> node \<times> frame list" where
  "visitContents frame frameIndex contents fl =
     (let (n, fl') = visit frame frameIndex contents fl
      in case contents of
           Scalar value \<Rightarrow> (Scalar (rewriteRef frameIndex value), fl')
         | _ \<Rightarrow> (n, fl'))"

text \<open>The awaited snapshot of frame \<open>i\<close> has arrived: \<open>r\<close> takes the place of \<open>Await i\<close>.\<close>

fun fill :: "nat \<Rightarrow> node \<Rightarrow> node \<Rightarrow> node" where
  "fill i r (Await j) = (if i = j then r else Await j)"
| "fill i r (YAMLPair key val) = YAMLPair (fill i r key) (fill i r val)"
| "fill i r (YAMLSeq items) = YAMLSeq (map (fill i r) items)"
| "fill i r (YAMLMap items) = YAMLMap (map (fill i r) items)"
| "fill i r (Scalar value) = Scalar value"
| "fill i r Other = Other"

text \<open>
  A snapshot under construction: \<open>_frameLocators\<close>, the suspended calls of
  \<open>_snapshotFrame\<close> for nested frames (frame index and frame, in the order of the calls), and
  the document of the page as far as it is known.
\<close>

record building =
  frames :: "frame list"
  pending :: "(nat \<times> frame) list"
  contents :: node

text \<open>
  The driver answers the suspended call for the nested frame \<open>fr\<close> of index \<open>i\<close>. When it
  throws, the \<open>catch\<close> of the caller puts the placeholder in the pair; otherwise the
  answer is visited, which pushes the iframes of \<open>fr\<close> and suspends a call for each.
\<close>

definition answer :: "nat \<times> frame \<Rightarrow> building \<Rightarrow> building" where
  "answer p b =
     (case ariaSnapshot (snd p) of
        None \<Rightarrow> b\<lparr>contents := fill (fst p) (Scalar placeholder) (contents b)\<rparr>
      | Some doc \<Rightarrow>
          let (n, fl) = visitContents (snd p) (fst p) doc (frames b)
          in b\<lparr>frames := fl,
               pending := pending b @
                 zip [length (frames b)..<length fl] (drop (length (frames b)) fl),
               contents := fill (fst p) n (contents b)\<rparr>)"

text \<open>
  The number of suspended calls that the snapshot of a frame can still cause, an upper
  bound that makes the loop below terminate.
\<close>

fun iframeRefs :: "node \<Rightarrow> string list" where
  "iframeRefs (Scalar value) =
     (if startsWith value ''iframe ''
      then (case matchRef value of
              Some ref \<Rightarrow> if ref \<noteq> [] then [ref] else []
            | None \<Rightarrow> [])
      else [])"
| "iframeRefs (YAMLPair key val) = iframeRefs key @ iframeRefs val"
| "iframeRefs (YAMLSeq items) = concat (map iframeRefs items)"
| "iframeRefs (YAMLMap items) = concat (map iframeRefs items)"
| "iframeRefs Other = []"
| "iframeRefs (Await i) = []"

fun weight :: "frame \<Rightarrow> nat" where
  "weight (Frame a subs) =
     1 + (case a of None \<Rightarrow> 0 | Some doc \<Rightarrow> length (iframeRefs doc))
         * (1 + sum_list (map (\<lambda>p. weight (snd p)) subs))"

text \<open>
  The frames that a walk pushes are the frames of the iframe references of the tree, in
  document order; each weighs less than its parent, which makes the loop terminate.
\<close>

lemma visit_frames:
  "snd (visit fr i n fl) = fl @ map (frameLocator fr) (iframeRefs n)"
  "snd (visitItems fr i ns fl) = fl @ map (frameLocator fr) (concat (map iframeRefs ns))"
  by (induction fr i n fl and fr i ns fl rule: visit_visitItems.induct)
     (auto simp: Let_def split: prod.splits option.splits)

lemma visitContents_frames:
  "snd (visitContents fr i n fl) = fl @ map (frameLocator fr) (iframeRefs n)"
  using visit_frames(1) [of fr i n fl]
  by (auto simp: visitContents_def Let_def split: prod.splits node.splits)

lemma weight_subframe:
  "(r, f) \<in> set subs \<Longrightarrow> weight f \<le> sum_list (map (\<lambda>p. weight (snd p)) subs)"
  by (induction subs) auto

lemma weight_frameLocator:
  "weight (frameLocator (Frame a subs) ref) \<le> 1 + sum_list (map (\<lambda>p. weight (snd p)) subs)"
proof (cases "map_of subs ref")
  case None
  then show ?thesis by (simp add: frameLocator_def detached_def)
next
  case (Some f)
  then have "(ref, f) \<in> set subs" by (rule map_of_SomeD)
  then have "weight f \<le> sum_list (map (\<lambda>p. weight (snd p)) subs)" by (rule weight_subframe)
  with Some show ?thesis by (simp add: frameLocator_def)
qed

lemma weight_nested:
  "sum_list (map (\<lambda>ref. weight (frameLocator (Frame a subs) ref)) refs)
     \<le> length refs * (1 + sum_list (map (\<lambda>p. weight (snd p)) subs))"
proof (induction refs)
  case Nil
  then show ?case by simp
next
  case (Cons r refs)
  have "weight (frameLocator (Frame a subs) r) \<le> 1 + sum_list (map (\<lambda>p. weight (snd p)) subs)"
    by (rule weight_frameLocator)
  with Cons show ?case by simp
qed

lemma weight_answered:
  assumes "ariaSnapshot fr = Some doc"
  shows "sum_list (map (\<lambda>ref. weight (frameLocator fr ref)) (iframeRefs doc)) < weight fr"
proof (cases fr)
  case (Frame a subs)
  with assms have a: "a = Some doc" by simp
  have "sum_list (map (\<lambda>ref. weight (frameLocator (Frame a subs) ref)) (iframeRefs doc))
      \<le> length (iframeRefs doc) * (1 + sum_list (map (\<lambda>p. weight (snd p)) subs))"
    by (rule weight_nested)
  with Frame a show ?thesis by simp
qed

lemma weight_positive: "0 < weight fr"
  by (cases fr) simp

lemma zip_upt_snd: "length xs = m - n \<Longrightarrow> map snd (zip [n..<m] xs) = xs"
  by (simp add: map_snd_zip)

lemma pending_answer:
  "map snd (pending (answer p b)) =
     map snd (pending b) @
       (case ariaSnapshot (snd p) of
          None \<Rightarrow> []
        | Some doc \<Rightarrow> map (frameLocator (snd p)) (iframeRefs doc))"
proof (cases "ariaSnapshot (snd p)")
  case None
  then show ?thesis by (simp add: answer_def)
next
  case (Some doc)
  have fl: "snd (visitContents (snd p) (fst p) doc (frames b))
      = frames b @ map (frameLocator (snd p)) (iframeRefs doc)"
    by (rule visitContents_frames)
  show ?thesis using Some fl
    by (cases "visitContents (snd p) (fst p) doc (frames b)")
       (simp add: answer_def map_snd_zip)
qed

definition load :: "(nat \<times> frame) list \<Rightarrow> nat" where
  "load ps = sum_list (map (\<lambda>p. weight (snd p)) ps)"

lemma load_remove:
  "k < length ps \<Longrightarrow> load (take k ps @ drop (Suc k) ps) + weight (snd (ps ! k)) = load ps"
proof -
  assume "k < length ps"
  then have "ps = take k ps @ ps ! k # drop (Suc k) ps" by (rule id_take_nth_drop)
  then have "load ps = load (take k ps @ ps ! k # drop (Suc k) ps)" by simp
  then show ?thesis by (simp add: load_def)
qed

lemma load_map_snd: "load ps = sum_list (map weight (map snd ps))"
  by (simp add: load_def comp_def)

lemma load_answer:
  "load (pending (answer p b)) < load (pending b) + weight (snd p)"
proof (cases "ariaSnapshot (snd p)")
  case None
  then show ?thesis using weight_positive [of "snd p"]
    by (simp add: load_map_snd pending_answer)
next
  case (Some doc)
  then have "sum_list (map (\<lambda>ref. weight (frameLocator (snd p) ref)) (iframeRefs doc)) < weight (snd p)"
    by (rule weight_answered)
  with Some show ?thesis
    by (simp add: load_map_snd pending_answer comp_def)
qed

text \<open>
  Which suspended call the driver answers next is given from outside, by a list of
  choices: a choice selects among the suspended calls by position, and when the list is
  used up the oldest call is answered (the driver answers in the order of the requests).
\<close>

definition pick :: "nat list \<Rightarrow> nat \<Rightarrow> nat" where
  "pick choices n = (case choices of [] \<Rightarrow> 0 | c # _ \<Rightarrow> c mod n)"

lemma pick_less: "0 < n \<Longrightarrow> pick choices n < n"
  by (simp add: pick_def split: list.splits)

text \<open>
  The event loop while the snapshot is built: as long as a call is suspended, one of them
  is answered. It ends when every nested \<open>_snapshotFrame\<close> has settled, which is when
  the outermost \<open>await visit(snapshot.contents)\<close> returns.
\<close>

function settle :: "nat list \<Rightarrow> building \<Rightarrow> building" where
  "settle choices b =
     (if pending b = [] then b
      else let k = pick choices (length (pending b));
               p = pending b ! k;
               b1 = b\<lparr>pending := take k (pending b) @ drop (Suc k) (pending b)\<rparr>
           in settle (tl choices) (answer p b1))"
  by pat_completeness auto
termination
proof (relation "measure (\<lambda>(choices, b). load (pending b))")
  show "wf (measure (\<lambda>(choices, b). load (pending b)))" by simp
next
  fix choices :: "nat list" and b :: building and k p b1
  assume ne: "pending b \<noteq> []"
    and k: "k = pick choices (length (pending b))"
    and p: "p = pending b ! k"
    and b1: "b1 = b\<lparr>pending := take k (pending b) @ drop (Suc k) (pending b)\<rparr>"
  from ne k have "k < length (pending b)" by (simp add: pick_less)
  then have "load (pending b1) + weight (snd p) = load (pending b)"
    using load_remove [of k "pending b"] by (simp add: b1 p)
  moreover have "load (pending (answer p b1)) < load (pending b1) + weight (snd p)"
    by (rule load_answer)
  ultimately show "((tl choices, answer p b1), (choices, b)) \<in> measure (\<lambda>(choices, b). load (pending b))"
    by simp
qed

declare settle.simps [simp del]

text \<open>
  \<open>_build\<close>: the call \<open>_snapshotFrame(page)\<close> pushes the page, with index 0, and is
  suspended; the document of the snapshot is what that call will return. Nothing catches
  what the driver throws for the page itself: the capture fails then.
\<close>

definition start :: "frame \<Rightarrow> building" where
  "start page = \<lparr>frames = [page], pending = [(0, page)], contents = Await 0\<rparr>"

definition build :: "nat list \<Rightarrow> frame \<Rightarrow> error + building" where
  "build choices page =
     (case ariaSnapshot page of
        None \<Rightarrow> Inl (DriverError ''ariaSnapshot'')
      | Some doc \<Rightarrow> Inr (settle choices (start page)))"

text \<open>
  \<open>PageSnapshot.create\<close>. The parameter \<open>toString\<close> is the YAML library's rendering of the
  document, trimmed.
\<close>

definition create :: "(node \<Rightarrow> string) \<Rightarrow> nat list \<Rightarrow> frame \<Rightarrow> error + pageSnapshot" where
  "create toString choices page =
     (case build choices page of
        Inl e \<Rightarrow> Inl e
      | Inr b \<Rightarrow>
          Inr \<lparr>frameLocators = frames b,
               snapshotText =
                 ''- Page Snapshot'' @ [CHR 0x0A] @ ''```yaml'' @ [CHR 0x0A] @
                 toString (contents b) @ [CHR 0x0A] @ ''```''\<rparr>)"

section \<open>The frame tree of a page\<close>

text \<open>
  The frames of a page in depth-first order (a frame, then the subtree of each of its
  iframes in turn), and the number of iframes nested in it at any depth.
\<close>

fun dfs :: "frame \<Rightarrow> frame list" where
  "dfs (Frame a subs) = Frame a subs # concat (map (\<lambda>p. dfs (snd p)) subs)"

fun iframeCount :: "frame \<Rightarrow> nat" where
  "iframeCount (Frame a subs) = sum_list (map (\<lambda>p. 1 + iframeCount (snd p)) subs)"

text \<open>
  The aria snapshot of every frame of the tree can be taken, and it shows every iframe of
  the frame once, by its reference, in document order.
\<close>

fun wellFormed :: "frame \<Rightarrow> bool" where
  "wellFormed (Frame a subs) \<longleftrightarrow>
     (case a of None \<Rightarrow> False | Some doc \<Rightarrow> iframeRefs doc = map fst subs) \<and>
     distinct (map fst subs) \<and>
     list_all (\<lambda>p. wellFormed (snd p)) subs"

text \<open>The iframes of a frame itself, in document order.\<close>

definition nestedFrames :: "frame \<Rightarrow> frame list" where
  "nestedFrames fr = map snd (subframes fr)"

text \<open>
  The iframes of the frame at index \<open>i\<close> stand in the list one after the other, in document
  order, from some later index on.
\<close>

definition blockAfter :: "frame list \<Rightarrow> nat \<Rightarrow> bool" where
  "blockAfter fl i \<longleftrightarrow>
     (\<exists>j. i < j \<and> take (length (nestedFrames (fl ! i))) (drop j fl) = nestedFrames (fl ! i))"

text \<open>
  What holds of a snapshot under construction: every suspended call is for the frame at
  its index, every frame that is not suspended has its iframes in the list, and the frames
  in the list together with those still to come are the frames of the page.
\<close>

definition awaited :: "(nat \<times> frame) list \<Rightarrow> frame multiset" where
  "awaited ps = sum_list (map (\<lambda>p. mset (tl (dfs (snd p)))) ps)"

definition consistent :: "frame \<Rightarrow> building \<Rightarrow> bool" where
  "consistent page b \<longleftrightarrow>
     (\<forall>p \<in> set (pending b). fst p < length (frames b) \<and> frames b ! fst p = snd p \<and> wellFormed (snd p)) \<and>
     distinct (map fst (pending b)) \<and>
     (\<forall>i < length (frames b). i \<notin> fst ` set (pending b) \<longrightarrow> blockAfter (frames b) i) \<and>
     mset (frames b) + awaited (pending b) = mset (dfs page)"

text \<open>
  A page with two iframes, the first of which holds an iframe of its own.
\<close>

definition frameC :: frame where
  "frameC = Frame (Some (YAMLSeq [Scalar ''button \"C\" [ref=e1]''])) []"

definition frameB :: frame where
  "frameB = Frame (Some (YAMLSeq [Scalar ''button \"B\" [ref=e1]''])) []"

definition frameA :: frame where
  "frameA = Frame (Some (YAMLSeq [Scalar ''heading \"A\" [ref=e1]'', Scalar ''iframe [ref=e2]'']))
     [(''e2'', frameC)]"

definition examplePage :: frame where
  "examplePage =
     Frame (Some (YAMLSeq [YAMLPair (Scalar ''generic [ref=e1]'')
                    (YAMLSeq [Scalar ''iframe [ref=e2]'', Scalar ''iframe [ref=e3]''])]))
       [(''e2'', frameA), (''e3'', frameB)]"

section \<open>Positions in a document\<close>

text \<open>
  The node at a path of a document: in a pair 0 is the key and 1 the value, in a sequence
  or map the number is that of the item.
\<close>

fun nodeAt :: "nat list \<Rightarrow> node \<Rightarrow> node option" where
  "nodeAt [] n = Some n"
| "nodeAt (i # path) (YAMLPair key val) =
     (if i = 0 then nodeAt path key else if i = 1 then nodeAt path val else None)"
| "nodeAt (i # path) (YAMLSeq items) =
     (if i < length items then nodeAt path (items ! i) else None)"
| "nodeAt (i # path) (YAMLMap items) =
     (if i < length items then nodeAt path (items ! i) else None)"
| "nodeAt (i # path) (Scalar value) = None"
| "nodeAt (i # path) Other = None"
| "nodeAt (i # path) (Await j) = None"

text \<open>The string is an iframe line that carries the reference: \<open>visit\<close> descends.\<close>

definition isIframe :: "string \<Rightarrow> string \<Rightarrow> bool" where
  "isIframe value ref \<longleftrightarrow> startsWith value ''iframe '' \<and> matchRef value = Some ref \<and> ref \<noteq> []"

text \<open>
  Three stages of a snapshot under construction. The suspended calls have distinct
  indices, all of the list. The snapshot of a frame is awaited at a path of the document.
  The pair under a path has its key, and its value is either still awaited, from the
  suspended call for \<open>child\<close>, or the placeholder.
\<close>

definition orderly :: "building \<Rightarrow> bool" where
  "orderly b \<longleftrightarrow>
     distinct (map fst (pending b)) \<and> (\<forall>q \<in> set (pending b). fst q < length (frames b))"

definition expecting :: "nat list \<Rightarrow> nat \<Rightarrow> frame \<Rightarrow> building \<Rightarrow> bool" where
  "expecting path i parent b \<longleftrightarrow>
     orderly b \<and> (i, parent) \<in> set (pending b) \<and> nodeAt path (contents b) = Some (Await i)"

definition settling :: "nat list \<Rightarrow> node \<Rightarrow> frame \<Rightarrow> building \<Rightarrow> bool" where
  "settling path key child b \<longleftrightarrow>
     orderly b \<and>
     ((\<exists>j. (j, child) \<in> set (pending b) \<and>
           nodeAt path (contents b) = Some (YAMLPair key (Await j))) \<or>
      nodeAt path (contents b) = Some (YAMLPair key (Scalar placeholder)))"

text \<open>A page with an iframe whose frame cannot be reached.\<close>

definition brokenPage :: frame where
  "brokenPage =
     Frame (Some (YAMLSeq [Scalar ''heading \"News\" [ref=e1]'', Scalar ''iframe [ref=e2]''])) []"

text \<open>
  A page with one iframe and a paragraph whose text reads like the line of an iframe, and
  a page with one iframe that its aria snapshot does not show.
\<close>

definition spoofPage :: frame where
  "spoofPage =
     Frame (Some (YAMLSeq [Scalar ''iframe [ref=e2]'',
                    YAMLPair (Scalar ''paragraph [ref=e3]'') (Scalar ''iframe [ref=e2]'')]))
       [(''e2'', frameB)]"

definition hiddenPage :: frame where
  "hiddenPage =
     Frame (Some (YAMLSeq [Scalar ''heading \"News\" [ref=e1]''])) [(''e2'', frameB)]"

section \<open>Running a tool: \<open>Context.run\<close>\<close>

datatype content = TextContent string | ImageContent string string
























section \<open>Properties of the reference codec\<close>

lemma digitVal_digitChar: "d < 10 \<Longrightarrow> digitVal (digitChar d) = d"
  by (simp add: digitVal_def digitChar_def)

lemma isDigit_digitChar: "d < 10 \<Longrightarrow> isDigit (digitChar d)"
  by (simp add: isDigit_def digitChar_def)

lemma parseInt_snoc: "parseInt (ds @ [c]) = 10 * parseInt ds + digitVal c"
  by (simp add: parseInt_def)

lemma numberToString_digits: "list_all isDigit (numberToString n)"
proof (induction n rule: numberToString.induct)
  case (1 n)
  show ?case
  proof (cases "n < 10")
    case True
    then show ?thesis
      by (subst numberToString.simps) (simp add: isDigit_digitChar)
  next
    case False
    with 1 show ?thesis
      by (subst numberToString.simps) (simp add: isDigit_digitChar)
  qed
qed

lemma numberToString_nonempty: "numberToString n \<noteq> []"
  by (subst numberToString.simps) simp

lemma parseInt_numberToString: "parseInt (numberToString n) = n"
proof (induction n rule: numberToString.induct)
  case (1 n)
  show ?case
  proof (cases "n < 10")
    case True
    then show ?thesis
      by (subst numberToString.simps) (simp add: parseInt_def digitVal_digitChar)
  next
    case False
    with 1 have "parseInt (numberToString (n div 10)) = n div 10" by simp
    with False show ?thesis
      by (subst numberToString.simps) (simp add: parseInt_snoc digitVal_digitChar)
  qed
qed


lemma takeWhile_digits_append:
  "list_all isDigit ds \<Longrightarrow> takeWhile isDigit (ds @ s) = ds @ takeWhile isDigit s"
  by (induction ds) auto

lemma dropWhile_digits_append:
  "list_all isDigit ds \<Longrightarrow> dropWhile isDigit (ds @ s) = dropWhile isDigit s"
  by (induction ds) auto

lemma length_rest_less:
  "takeWhile isDigit s \<noteq> [] \<Longrightarrow>
   length (takeWhile (\<lambda>c. \<not> lineTerminator c) (dropWhile isDigit s)) < length s"
proof -
  assume "takeWhile isDigit s \<noteq> []"
  then have "length (dropWhile isDigit s) < length s"
    by (cases s) (auto simp: le_imp_less_Suc length_dropWhile_le split: if_splits)
  moreover have "length (takeWhile (\<lambda>c. \<not> lineTerminator c) (dropWhile isDigit s))
      \<le> length (dropWhile isDigit s)"
    by (rule length_takeWhile_le)
  ultimately show ?thesis by linarith
qed

lemma decode_zero: "decode s = (0, s) \<longleftrightarrow> roundTrips 0 s"
proof (cases s)
  case Nil
  then show ?thesis by (simp add: decode_def matchFrameRef_def roundTrips_def)
next
  case (Cons c rest)
  show ?thesis
  proof (cases "c = CHR ''f'' \<and> takeWhile isDigit rest \<noteq> []")
    case True
    then have "length (takeWhile (\<lambda>c. \<not> lineTerminator c) (dropWhile isDigit rest)) < length rest"
      by (simp add: length_rest_less)
    then have "takeWhile (\<lambda>c. \<not> lineTerminator c) (dropWhile isDigit rest) \<noteq> c # rest"
      by auto
    moreover from True have "\<not> roundTrips 0 s"
      by (cases rest) (auto simp: roundTrips_def Cons split: if_splits)
    ultimately show ?thesis using True
      by (simp add: decode_def matchFrameRef_def Cons)
  next
    case False
    then have "roundTrips 0 s"
      by (cases rest) (auto simp: roundTrips_def Cons)
    with False show ?thesis
      by (auto simp: decode_def matchFrameRef_def Cons)
  qed
qed

lemma decode_prefixed:
  "decode (CHR ''f'' # numberToString n @ s) =
     (parseInt (numberToString n @ takeWhile isDigit s),
      takeWhile (\<lambda>c. \<not> lineTerminator c) (dropWhile isDigit s))"
  using numberToString_nonempty [of n]
  by (simp add: decode_def matchFrameRef_def takeWhile_digits_append
      dropWhile_digits_append numberToString_digits)

lemma decode_positive:
  assumes "0 < n"
  shows "decode (encode n s) = (n, s) \<longleftrightarrow> roundTrips n s"
proof (cases "takeWhile isDigit s = []")
  case True
  then have "dropWhile isDigit s = s"
    by (cases s) (auto split: if_splits)
  moreover from True have "(case s of [] \<Rightarrow> True | c # _ \<Rightarrow> \<not> isDigit c)"
    by (cases s) (auto split: if_splits)
  ultimately show ?thesis using assms True
    by (simp add: encode_def decode_prefixed parseInt_numberToString roundTrips_def
        list_all_iff)
next
  case False
  then have "length (takeWhile (\<lambda>c. \<not> lineTerminator c) (dropWhile isDigit s)) < length s"
    by (rule length_rest_less)
  then have "takeWhile (\<lambda>c. \<not> lineTerminator c) (dropWhile isDigit s) \<noteq> s"
    by auto
  moreover from False have "\<not> roundTrips n s"
    using assms by (cases s) (auto simp: roundTrips_def split: if_splits)
  ultimately show ?thesis using assms
    by (simp add: encode_def decode_prefixed)
qed

lemma replace_first_marker:
  "(\<forall>k < length pre. \<not> startsWith (drop k (pre @ pat @ post)) pat) \<Longrightarrow> pat \<noteq> [] \<Longrightarrow>
   replace (pre @ pat @ post) pat rep = pre @ rep @ post"
proof (induction pre)
  case Nil
  then show ?case by (cases pat) (simp_all add: startsWith_def)
next
  case (Cons c pre)
  from Cons.prems(1) have "\<not> startsWith (drop 0 ((c # pre) @ pat @ post)) pat" by blast
  then have here: "\<not> startsWith (c # pre @ pat @ post) pat" by simp
  have "\<forall>k < length pre. \<not> startsWith (drop k (pre @ pat @ post)) pat"
  proof (intro allI impI)
    fix k assume "k < length pre"
    then have "Suc k < length (c # pre)" by simp
    with Cons.prems(1) have "\<not> startsWith (drop (Suc k) ((c # pre) @ pat @ post)) pat" by blast
    then show "\<not> startsWith (drop k (pre @ pat @ post)) pat" by simp
  qed
  with Cons have "replace (pre @ pat @ post) pat rep = pre @ rep @ post" by simp
  with here show ?case by simp
qed

text \<open>
  The spec's \<open>encode\<close> is what the rewriting of \<open>visit\<close> does to the first marker of a
  line: the text after the marker becomes the encoded reference.
\<close>

lemma rewriteRef_encode:
  assumes "\<forall>k < length pre. \<not> startsWith (drop k (pre @ ''[ref='' @ localId @ post)) ''[ref=''"
  shows "rewriteRef frameIndex (pre @ ''[ref='' @ localId @ post)
           = pre @ ''[ref='' @ encode frameIndex localId @ post"
proof (cases "frameIndex = 0")
  case True
  then show ?thesis by (simp add: rewriteRef_def encode_def)
next
  case False
  have "replace (pre @ ''[ref='' @ (localId @ post)) ''[ref='' (''[ref=f'' @ numberToString frameIndex)
      = pre @ (''[ref=f'' @ numberToString frameIndex) @ (localId @ post)"
    using assms by (intro replace_first_marker) simp_all
  with False show ?thesis by (simp add: rewriteRef_def encode_def)
qed

text \<open>
  Claim C2, as amended. Decoding the reference that encoding \<open>(n, s)\<close> produces gives back
  \<open>(n, s)\<close> exactly for the pairs of \<open>roundTrips\<close>: with \<open>n = 0\<close>, when \<open>s\<close> does not begin
  with \<open>f\<close> and a digit; with \<open>n > 0\<close>, when \<open>s\<close> does not begin with a digit and holds no
  line terminator. On every other pair the decoded pair differs. A reference without the
  prefix decodes to frame 0 and itself; one with the prefix \<open>f\<close> and digits decodes to the
  number the digits spell and the rest of the first line.
\<close>

theorem decode_encode_iff:
  "(decode (encode n s) = (n, s) \<longleftrightarrow> roundTrips n s) \<and>
   (matchFrameRef ref = None \<longrightarrow> decode ref = (0, ref)) \<and>
   (\<forall>digits rest. matchFrameRef ref = Some (digits, rest) \<longrightarrow>
      decode ref = (parseInt digits, rest))"
proof (intro conjI)
  show "decode (encode n s) = (n, s) \<longleftrightarrow> roundTrips n s"
  proof (cases "n = 0")
    case True
    then show ?thesis using decode_zero [of s] by (simp add: encode_def)
  next
    case False
    then show ?thesis using decode_positive [of n s] by simp
  qed
qed (simp_all add: decode_def)

theorem decode_encode_iff_witness:
  "decode (encode 3 ''e5'') = (3, ''e5'') \<and> decode ''e5'' = (0, ''e5'')"
  using decode_encode_iff [of 3 "''e5''" "''e5''"]
  by (simp add: roundTrips_def isDigit_def lineTerminator_def matchFrameRef_def)

text \<open>
  The claim as stated fails: the id \<open>2\<close> of frame 1 is encoded as \<open>f12\<close>, which decodes to
  frame 12 and the empty id.
\<close>

theorem decode_encode_counterexample:
  "decode (encode 1 ''2'') = (12, '''') \<and> decode (encode 1 ''2'') \<noteq> (1, ''2'')"
  by (simp add: decode_def encode_def matchFrameRef_def isDigit_def parseInt_def
      digitVal_def digitChar_def lineTerminator_def numberToString.simps)

section \<open>Properties of reference resolution\<close>

lemma refLocator_decode:
  "refLocator s ref =
     (case at (frameLocators s) (fst (decode ref)) of
        None \<Rightarrow> Inl FrameDoesNotExist
      | Some f \<Rightarrow> Inr (Locator f (''aria-ref='' @ snd (decode ref))))"
  by (simp add: refLocator_def decode_def split: option.splits prod.splits)

text \<open>
  Claim C4. A reference whose decoded frame index lies outside the snapshot's frame list
  makes \<open>refLocator\<close> throw the frame-does-not-exist error, also through \<open>resolve\<close>; and on a
  tab with no snapshot \<open>snapshotOrDie\<close> throws, so every resolution fails.
\<close>

theorem refLocator_out_of_range:
  "(length (frameLocators s) \<le> fst (decode ref) \<longrightarrow>
      refLocator s ref = Inl FrameDoesNotExist \<and>
      resolve (Some s) ref = Inl FrameDoesNotExist) \<and>
   snapshotOrDie None = Inl NoSnapshotAvailable \<and>
   resolve None ref' = Inl NoSnapshotAvailable"
  by (simp add: refLocator_decode resolve_def snapshotOrDie_def at_def)

theorem refLocator_out_of_range_witness:
  "length (frameLocators \<lparr>frameLocators = [Frame None []], snapshotText = []\<rparr>)
     \<le> fst (decode ''f1e5'') \<and>
   refLocator \<lparr>frameLocators = [Frame None []], snapshotText = []\<rparr> ''f1e5''
     = Inl FrameDoesNotExist"
  using refLocator_out_of_range
    [of "\<lparr>frameLocators = [Frame None []], snapshotText = []\<rparr>" "''f1e5''"]
  by (simp add: decode_def matchFrameRef_def isDigit_def parseInt_def digitVal_def)

section \<open>Properties of the session\<close>

text \<open>
  \<open>clearModalState\<close> takes out the one object it is given: of two modal states that a
  session has stored for the same dialog of the same tab, the other one stays.
\<close>

lemma clearModalState_by_identity:
  "modalStates (setModalState m t (setModalState m t newContext)) = [s1, s2] \<Longrightarrow>
   modalStates (clearModalState s1 (setModalState m t (setModalState m t newContext))) = [s2]"
  by (auto simp: setModalState_def clearModalState_def newContext_def)

lemma indexOf_absent: "t \<notin> set xs \<Longrightarrow> indexOf xs t = -1"
  by (induction xs) (auto simp: Let_def)

lemma indexOf_present:
  "t \<in> set xs \<Longrightarrow> 0 \<le> indexOf xs t \<and> indexOf xs t < int (length xs) \<and> xs ! nat (indexOf xs t) = t"
proof (induction xs)
  case Nil
  then show ?case by simp
next
  case (Cons y ys)
  show ?case
  proof (cases "y = t")
    case True
    then show ?thesis by simp
  next
    case False
    with Cons.prems have "t \<in> set ys" by simp
    with Cons.IH have ih: "0 \<le> indexOf ys t" "indexOf ys t < int (length ys)"
      "ys ! nat (indexOf ys t) = t" by simp_all
    then have "nat (indexOf ys t + 1) = Suc (nat (indexOf ys t))" by simp
    with False ih show ?thesis by (simp add: Let_def)
  qed
qed

lemma indexOf_minus_one: "indexOf xs t = -1 \<longleftrightarrow> t \<notin> set xs"
  using indexOf_absent [of t xs] indexOf_present [of t xs] by auto

lemma close_fields [simp]:
  "tabs (close c) = tabs c" "currentTab (close c) = currentTab c"
  "modalStates (close c) = modalStates c"
  by (simp_all add: close_def)

lemma onPageClosed_modalStates:
  "modalStates (onPageClosed t c) = filter (\<lambda>state. tab state \<noteq> t) (modalStates c)"
  by (simp add: onPageClosed_def Let_def)

lemma onPageClosed_tabs:
  "tabs (onPageClosed t c) = (if t \<in> set (tabs c) then splice1 (tabs c) (indexOf (tabs c) t) else tabs c)"
  by (simp add: onPageClosed_def Let_def indexOf_minus_one)

lemma onPageClosed_currentTab:
  "currentTab (onPageClosed t c) =
     (if t \<in> set (tabs c) \<and> currentTab c = Some t
      then atInt (splice1 (tabs c) (indexOf (tabs c) t))
             (min (indexOf (tabs c) t) (int (length (splice1 (tabs c) (indexOf (tabs c) t))) - 1))
      else currentTab c)"
  by (simp add: onPageClosed_def Let_def indexOf_minus_one)

lemma length_splice1:
  "0 \<le> i \<Longrightarrow> i < int (length xs) \<Longrightarrow> length (splice1 xs i) = length xs - 1"
  by (auto simp: splice1_def)

lemma set_splice1_subset: "set (splice1 xs i) \<subseteq> set xs"
  by (auto simp: splice1_def dest: in_set_takeD in_set_dropD)

lemma splice1_distinct_notin:
  assumes "distinct xs" "0 \<le> i" "i < int (length xs)"
  shows "xs ! nat i \<notin> set (splice1 xs i)"
proof -
  from assms have n: "nat i < length xs" by simp
  have "xs = take (nat i) xs @ xs ! nat i # drop (Suc (nat i)) xs"
    using n by (simp add: id_take_nth_drop)
  with assms(1) have "distinct (take (nat i) xs @ xs ! nat i # drop (Suc (nat i)) xs)"
    by simp
  then show ?thesis by (auto simp: splice1_def)
qed

text \<open>
  Claim C8. When the page of the current tab closes and another tab remains, the tab is
  taken out of the list and the current tab becomes the tab of the updated list at index
  \<open>min(closedIndex, tabCount - 1)\<close>, a tab that is open (and, the tab objects being
  distinct, not the closed one); when the page of another tab closes, the current tab
  stays what it was.
\<close>

theorem onPageClosed_promotes:
  "(currentTab c = Some t \<and> t \<in> set (tabs c) \<and> 2 \<le> length (tabs c) \<longrightarrow>
      (\<exists>n. currentTab (onPageClosed t c) = Some n \<and>
           n \<in> set (tabs (onPageClosed t c)) \<and>
           atInt (tabs (onPageClosed t c))
             (min (indexOf (tabs c) t) (int (length (tabs (onPageClosed t c))) - 1)) = Some n \<and>
           tabs (onPageClosed t c) = splice1 (tabs c) (indexOf (tabs c) t) \<and>
           (distinct (tabs c) \<longrightarrow> n \<noteq> t))) \<and>
   (currentTab c \<noteq> Some t \<longrightarrow> currentTab (onPageClosed t c) = currentTab c)"
proof (intro conjI impI)
  assume a: "currentTab c = Some t \<and> t \<in> set (tabs c) \<and> 2 \<le> length (tabs c)"
  let ?i = "indexOf (tabs c) t"
  let ?ts = "splice1 (tabs c) ?i"
  let ?k = "min ?i (int (length ?ts) - 1)"
  from a have i: "0 \<le> ?i" "?i < int (length (tabs c))" "tabs c ! nat ?i = t"
    using indexOf_present [of t "tabs c"] by simp_all
  then have len: "length ?ts = length (tabs c) - 1" by (simp add: length_splice1)
  with a i have k: "0 \<le> ?k" "?k < int (length ?ts)" by auto
  then have at: "atInt ?ts ?k = Some (?ts ! nat ?k)" by (simp add: atInt_def)
  from k have "nat ?k < length ?ts" by linarith
  then have mem: "?ts ! nat ?k \<in> set ?ts" by (rule nth_mem)
  have notin: "distinct (tabs c) \<longrightarrow> ?ts ! nat ?k \<noteq> t"
    using splice1_distinct_notin [of "tabs c" ?i] i mem by auto
  show "\<exists>n. currentTab (onPageClosed t c) = Some n \<and>
           n \<in> set (tabs (onPageClosed t c)) \<and>
           atInt (tabs (onPageClosed t c))
             (min (indexOf (tabs c) t) (int (length (tabs (onPageClosed t c))) - 1)) = Some n \<and>
           tabs (onPageClosed t c) = splice1 (tabs c) (indexOf (tabs c) t) \<and>
           (distinct (tabs c) \<longrightarrow> n \<noteq> t)"
    using a at mem notin by (simp add: onPageClosed_tabs onPageClosed_currentTab)
next
  assume "currentTab c \<noteq> Some t"
  then show "currentTab (onPageClosed t c) = currentTab c"
    by (simp add: onPageClosed_currentTab)
qed

theorem onPageClosed_promotes_witness:
  "currentTab (onPageClosed 5 (newContext\<lparr>tabs := [4, 5, 6], currentTab := Some 5\<rparr>)) = Some 6 \<and>
   currentTab (onPageClosed 6 (newContext\<lparr>tabs := [4, 5, 6], currentTab := Some 6\<rparr>)) = Some 5 \<and>
   currentTab (onPageClosed 4 (newContext\<lparr>tabs := [4, 5, 6], currentTab := Some 5\<rparr>)) = Some 5"
  using onPageClosed_promotes [of "newContext\<lparr>tabs := [4, 5, 6], currentTab := Some 5\<rparr>" 5]
    onPageClosed_promotes [of "newContext\<lparr>tabs := [4, 5, 6], currentTab := Some 5\<rparr>" 4]
  by (simp add: newContext_def onPageClosed_def Let_def splice1_def atInt_def close_def)

text \<open>
  Claim C9. With a current tab and no dialog-type modal state, \<open>waitForTimeout\<close> runs a
  timer of 1000 milliseconds inside the page of the current tab, whatever the time it was
  given; without a current tab, or while a dialog-type modal state is active, it runs a
  timer of the server for exactly the given time.
\<close>

theorem waitForTimeout_cases:
  "(currentTab c = Some t \<and> \<not> javaScriptBlocked c \<longrightarrow>
      waitForTimeout time c = PageTimer t 1000) \<and>
   (currentTab c = None \<or> javaScriptBlocked c \<longrightarrow>
      waitForTimeout time c = ServerTimer time) \<and>
   (javaScriptBlocked c \<longleftrightarrow> (\<exists>state \<in> set (modalStates c). mtype state = Dialog))"
  by (auto simp: waitForTimeout_def javaScriptBlocked_def list_ex_iff split: option.splits)

theorem waitForTimeout_cases_witness:
  "waitForTimeout (250 :: int) (newContext\<lparr>tabs := [4], currentTab := Some 4\<rparr>) = PageTimer 4 1000 \<and>
   waitForTimeout (250 :: int) newContext = ServerTimer 250 \<and>
   waitForTimeout (250 :: int) (newContext\<lparr>tabs := [4], currentTab := Some 4,
      modalStates := [\<lparr>mtype = Dialog, description = ''alert'', handle = 0, tab = 4, oid = 0\<rparr>]\<rparr>)
     = ServerTimer 250"
  using waitForTimeout_cases [of "newContext\<lparr>tabs := [4], currentTab := Some 4\<rparr>" 4 250]
    waitForTimeout_cases [of newContext undefined 250]
    waitForTimeout_cases [of "newContext\<lparr>tabs := [4], currentTab := Some 4,
      modalStates := [\<lparr>mtype = Dialog, description = ''alert'', handle = 0, tab = 4, oid = 0\<rparr>]\<rparr>" 4 250]
  by (simp add: newContext_def javaScriptBlocked_def)

lemma modalTabsOpen_perform:
  assumes "modalTabsOpen c" "tagsOpenTab op c"
  shows "modalTabsOpen (perform op c)"
proof (cases op)
  case (PageCreated t)
  with assms show ?thesis
    by (auto simp: modalTabsOpen_def onPageCreated_def Let_def list_all_iff)
next
  case (PageClosed t)
  have "set (tabs c) \<subseteq> insert t (set (tabs (onPageClosed t c)))"
  proof (cases "t \<in> set (tabs c)")
    case True
    then have i: "0 \<le> indexOf (tabs c) t" "indexOf (tabs c) t < int (length (tabs c))"
      "tabs c ! nat (indexOf (tabs c) t) = t"
      using indexOf_present [of t "tabs c"] by simp_all
    then have "tabs c = take (nat (indexOf (tabs c) t)) (tabs c) @ t # drop (Suc (nat (indexOf (tabs c) t))) (tabs c)"
      using id_take_nth_drop [of "nat (indexOf (tabs c) t)" "tabs c"] by simp
    then have "set (tabs c) = insert t (set (splice1 (tabs c) (indexOf (tabs c) t)))"
      by (metis Un_insert_right list.simps(15) set_append splice1_def)
    with True show ?thesis by (simp add: onPageClosed_tabs)
  next
    case False
    then show ?thesis by (auto simp: onPageClosed_tabs)
  qed
  with assms PageClosed show ?thesis
    by (auto simp: modalTabsOpen_def onPageClosed_modalStates list_all_iff)
next
  case (SetModalState m t)
  with assms show ?thesis
    by (auto simp: modalTabsOpen_def setModalState_def list_all_iff)
next
  case (ClearModalState m)
  with assms show ?thesis
    by (auto simp: modalTabsOpen_def clearModalState_def list_all_iff)
next
  case (DialogShown t descr d)
  with assms show ?thesis
    by (auto simp: modalTabsOpen_def dialogShown_def setModalState_def list_all_iff)
next
  case (SelectTab i)
  with assms show ?thesis
    by (auto simp: modalTabsOpen_def selectTab_def Let_def)
next
  case Close
  with assms show ?thesis
    by (auto simp: modalTabsOpen_def)
qed

text \<open>
  Claim C10, as amended. After the page of a tab closes no modal state of that tab is left
  in the list; and every operation of the session keeps every active modal state on an
  open tab, provided that the operations which tag a modal state with a tab
  (\<open>setModalState\<close>, \<open>dialogShown\<close>) are given a tab of the open-tabs list, as the page
  event handlers of an open tab do.
\<close>

theorem modal_states_of_open_tabs:
  "list_all (\<lambda>state. tab state \<noteq> t) (modalStates (onPageClosed t c)) \<and>
   (modalTabsOpen c \<and> tagsOpenTab op c \<longrightarrow> modalTabsOpen (perform op c))"
  using modalTabsOpen_perform [of c op]
  by (auto simp: onPageClosed_modalStates list_all_iff)

theorem modal_states_of_open_tabs_witness:
  "modalTabsOpen (perform (PageClosed 4)
     (newContext\<lparr>tabs := [4, 5], currentTab := Some 4,
        modalStates := [\<lparr>mtype = Dialog, description = ''alert'', handle = 0, tab = 4, oid = 0\<rparr>,
                        \<lparr>mtype = FileChooser, description = ''File chooser'', handle = 1, tab = 5, oid = 1\<rparr>]\<rparr>)) \<and>
   modalStates (perform (PageClosed 4)
     (newContext\<lparr>tabs := [4, 5], currentTab := Some 4,
        modalStates := [\<lparr>mtype = Dialog, description = ''alert'', handle = 0, tab = 4, oid = 0\<rparr>,
                        \<lparr>mtype = FileChooser, description = ''File chooser'', handle = 1, tab = 5, oid = 1\<rparr>]\<rparr>))
     = [\<lparr>mtype = FileChooser, description = ''File chooser'', handle = 1, tab = 5, oid = 1\<rparr>]"
  using modal_states_of_open_tabs [of 4 "newContext\<lparr>tabs := [4, 5], currentTab := Some 4,
        modalStates := [\<lparr>mtype = Dialog, description = ''alert'', handle = 0, tab = 4, oid = 0\<rparr>,
                        \<lparr>mtype = FileChooser, description = ''File chooser'', handle = 1, tab = 5, oid = 1\<rparr>]\<rparr>" "PageClosed 4"]
  by (simp add: newContext_def modalTabsOpen_def onPageClosed_modalStates)

text \<open>
  The claim as stated fails for \<open>setModalState\<close>, which checks nothing: on a session with
  no open tab it records a modal state for the tab it is given.
\<close>

theorem modal_states_of_open_tabs_counterexample:
  "modalTabsOpen newContext \<and>
   \<not> modalTabsOpen (perform (SetModalState \<lparr>mtype = FileChooser, description = ''File chooser'', handle = 0\<rparr> 7) newContext)"
  by (simp add: newContext_def modalTabsOpen_def setModalState_def)

section \<open>Properties of the frame list of a snapshot\<close>

lemma length_dfs: "length (dfs fr) = iframeCount fr + 1"
proof (induction fr rule: dfs.induct)
  case (1 a subs)
  then have "map (\<lambda>p. length (dfs (snd p))) subs = map (\<lambda>p. 1 + iframeCount (snd p)) subs"
    by simp
  then have "sum_list (map (\<lambda>p. length (dfs (snd p))) subs)
      = sum_list (map (\<lambda>p. 1 + iframeCount (snd p)) subs)"
    by (rule arg_cong)
  then show ?case by (simp add: length_concat comp_def)
qed

lemma map_of_distinct_keys:
  "distinct (map fst subs) \<Longrightarrow> map (\<lambda>r. map_of subs r) (map fst subs) = map (\<lambda>p. Some (snd p)) subs"
  by (induction subs) (auto simp: rev_image_eqI)

lemma wellFormed_nested:
  assumes "wellFormed fr"
  shows "\<exists>doc. ariaSnapshot fr = Some doc \<and>
           map (frameLocator fr) (iframeRefs doc) = nestedFrames fr"
proof (cases fr)
  case (Frame a subs)
  with assms obtain doc where a: "a = Some doc" and refs: "iframeRefs doc = map fst subs"
    and d: "distinct (map fst subs)"
    by (auto split: option.splits)
  have "map (frameLocator fr) (map fst subs) = map snd subs"
  proof (rule nth_equalityI)
    show "length (map (frameLocator fr) (map fst subs)) = length (map snd subs)" by simp
  next
    fix i assume "i < length (map (frameLocator fr) (map fst subs))"
    then have i: "i < length subs" by simp
    then have "subs ! i \<in> set subs" by simp
    then have "map_of subs (fst (subs ! i)) = Some (snd (subs ! i))"
      using d by (metis map_of_is_SomeI prod.collapse)
    with i show "map (frameLocator fr) (map fst subs) ! i = map snd subs ! i"
      by (simp add: frameLocator_def Frame)
  qed
  with a refs Frame show ?thesis by (simp add: nestedFrames_def)
qed

lemma wellFormed_sub: "wellFormed fr \<Longrightarrow> f \<in> set (nestedFrames fr) \<Longrightarrow> wellFormed f"
  by (cases fr) (auto simp: nestedFrames_def list_all_iff)

lemma dfs_nested: "dfs fr = fr # concat (map dfs (nestedFrames fr))"
  by (cases fr) (simp add: nestedFrames_def comp_def)

lemma mset_concat_dfs:
  "mset (concat (map dfs fs)) = mset fs + sum_list (map (\<lambda>f. mset (tl (dfs f))) fs)"
proof (induction fs)
  case Nil
  then show ?case by simp
next
  case (Cons f fs)
  have "mset (dfs f) = {#f#} + mset (tl (dfs f))"
    by (cases f) simp
  with Cons show ?case by (simp add: ac_simps)
qed

lemma mset_tl_dfs:
  "mset (tl (dfs fr)) = mset (nestedFrames fr) + sum_list (map (\<lambda>f. mset (tl (dfs f))) (nestedFrames fr))"
  by (subst dfs_nested) (simp add: mset_concat_dfs)

lemma awaited_zip:
  "length is = length fs \<Longrightarrow> awaited (zip is fs) = sum_list (map (\<lambda>f. mset (tl (dfs f))) fs)"
  by (induction "is" fs rule: list_induct2) (simp_all add: awaited_def)

lemma awaited_append: "awaited (ps @ qs) = awaited ps + awaited qs"
  by (simp add: awaited_def)

lemma awaited_remove:
  "k < length ps \<Longrightarrow> awaited (take k ps @ drop (Suc k) ps) + mset (tl (dfs (snd (ps ! k)))) = awaited ps"
proof -
  assume "k < length ps"
  then have "ps = take k ps @ ps ! k # drop (Suc k) ps" by (rule id_take_nth_drop)
  then have "awaited ps = awaited (take k ps @ ps ! k # drop (Suc k) ps)" by simp
  then show ?thesis by (simp add: awaited_def ac_simps)
qed

lemma answer_wellFormed:
  assumes "wellFormed (snd p)"
  shows "frames (answer p b) = frames b @ nestedFrames (snd p)"
    and "pending (answer p b) = pending b @
           zip [length (frames b)..<length (frames b) + length (nestedFrames (snd p))] (nestedFrames (snd p))"
proof -
  from assms obtain doc where doc: "ariaSnapshot (snd p) = Some doc"
    and nested: "map (frameLocator (snd p)) (iframeRefs doc) = nestedFrames (snd p)"
    using wellFormed_nested by blast
  have fl: "snd (visitContents (snd p) (fst p) doc (frames b)) = frames b @ nestedFrames (snd p)"
    using visitContents_frames [of "snd p" "fst p" doc "frames b"] nested by simp
  show "frames (answer p b) = frames b @ nestedFrames (snd p)"
    using doc fl by (cases "visitContents (snd p) (fst p) doc (frames b)") (simp add: answer_def)
  show "pending (answer p b) = pending b @
           zip [length (frames b)..<length (frames b) + length (nestedFrames (snd p))] (nestedFrames (snd p))"
    using doc fl by (cases "visitContents (snd p) (fst p) doc (frames b)") (simp add: answer_def)
qed

lemma blockAfter_append:
  assumes "blockAfter fl i" "i < length fl"
  shows "blockAfter (fl @ xs) i"
proof -
  let ?ns = "nestedFrames (fl ! i)"
  from assms(1) obtain j where j: "i < j" "take (length ?ns) (drop j fl) = ?ns"
    by (auto simp: blockAfter_def)
  from j(2) have "length (take (length ?ns) (drop j fl)) = length ?ns" by simp
  then have "length ?ns \<le> length (drop j fl)" by simp
  then have "take (length ?ns) (drop j (fl @ xs)) = take (length ?ns) (drop j fl)" by simp
  with j assms(2) show ?thesis by (auto simp: blockAfter_def nth_append)
qed

lemma set_remove_nth:
  "k < length ps \<Longrightarrow> set ps = insert (ps ! k) (set (take k ps @ drop (Suc k) ps))"
proof -
  assume "k < length ps"
  then have "ps = take k ps @ ps ! k # drop (Suc k) ps" by (rule id_take_nth_drop)
  then have "set ps = set (take k ps @ ps ! k # drop (Suc k) ps)" by simp
  then show ?thesis by simp
qed

lemma distinct_remove_nth:
  assumes "k < length ps" "distinct (map fst ps)"
  shows "distinct (map fst (take k ps @ drop (Suc k) ps))"
    and "fst (ps ! k) \<notin> fst ` set (take k ps @ drop (Suc k) ps)"
proof -
  from assms(1) have "ps = take k ps @ ps ! k # drop (Suc k) ps" by (rule id_take_nth_drop)
  then have "map fst ps = map fst (take k ps) @ fst (ps ! k) # map fst (drop (Suc k) ps)"
    by (metis list.simps(9) map_append)
  with assms(2) have d: "distinct (map fst (take k ps) @ fst (ps ! k) # map fst (drop (Suc k) ps))"
    by simp
  from d show "distinct (map fst (take k ps @ drop (Suc k) ps))" by auto
  from d show "fst (ps ! k) \<notin> fst ` set (take k ps @ drop (Suc k) ps)" by auto
qed

lemma in_zip_upt:
  "q \<in> set (zip [n..<n + length ks] ks) \<longleftrightarrow> (\<exists>m < length ks. q = (n + m, ks ! m))"
proof (cases q)
  case (Pair a f)
  show ?thesis
  proof
    assume "q \<in> set (zip [n..<n + length ks] ks)"
    then obtain m where "m < length ks" "[n..<n + length ks] ! m = a" "ks ! m = f"
      by (auto simp: in_set_zip Pair)
    then show "\<exists>m < length ks. q = (n + m, ks ! m)"
      by (auto simp: Pair)
  next
    assume "\<exists>m < length ks. q = (n + m, ks ! m)"
    then obtain m where "m < length ks" "q = (n + m, ks ! m)" by blast
    then show "q \<in> set (zip [n..<n + length ks] ks)"
      by (auto simp: in_set_zip intro!: exI [of _ m])
  qed
qed

lemma consistent_step:
  assumes inv: "consistent page b" and k: "k < length (pending b)"
  shows "consistent page
           (answer (pending b ! k) (b\<lparr>pending := take k (pending b) @ drop (Suc k) (pending b)\<rparr>))"
proof -
  let ?p = "pending b ! k"
  let ?rest = "take k (pending b) @ drop (Suc k) (pending b)"
  let ?b1 = "b\<lparr>pending := ?rest\<rparr>"
  let ?fl = "frames b"
  let ?ks = "nestedFrames (snd ?p)"
  let ?new = "zip [length ?fl..<length ?fl + length ?ks] ?ks"
  from k have pin: "?p \<in> set (pending b)" by simp
  from inv have old: "\<forall>q \<in> set (pending b). fst q < length ?fl \<and> ?fl ! fst q = snd q \<and> wellFormed (snd q)"
    and dist: "distinct (map fst (pending b))"
    and blocks: "\<forall>i < length ?fl. i \<notin> fst ` set (pending b) \<longrightarrow> blockAfter ?fl i"
    and count: "mset ?fl + awaited (pending b) = mset (dfs page)"
    by (simp_all add: consistent_def)
  from old pin have p: "fst ?p < length ?fl" "?fl ! fst ?p = snd ?p" "wellFormed (snd ?p)"
    by blast+
  have fr: "frames (answer ?p ?b1) = ?fl @ ?ks"
    and pe: "pending (answer ?p ?b1) = ?rest @ ?new"
    using answer_wellFormed [OF p(3), of ?b1] by simp_all
  have setp: "set (pending b) = insert ?p (set ?rest)"
    using k by (rule set_remove_nth)
  have drest: "distinct (map fst ?rest)" and pnot: "fst ?p \<notin> fst ` set ?rest"
    using distinct_remove_nth [OF k dist] by simp_all
  have a: "\<forall>q \<in> set (?rest @ ?new).
      fst q < length (?fl @ ?ks) \<and> (?fl @ ?ks) ! fst q = snd q \<and> wellFormed (snd q)"
  proof
    fix q assume "q \<in> set (?rest @ ?new)"
    then consider "q \<in> set ?rest" | "q \<in> set ?new" by auto
    then show "fst q < length (?fl @ ?ks) \<and> (?fl @ ?ks) ! fst q = snd q \<and> wellFormed (snd q)"
    proof cases
      case 1
      with setp have "q \<in> set (pending b)" by simp
      with old have "fst q < length ?fl \<and> ?fl ! fst q = snd q \<and> wellFormed (snd q)" by blast
      then show ?thesis by (simp add: nth_append)
    next
      case 2
      then obtain m where m: "m < length ?ks" "q = (length ?fl + m, ?ks ! m)"
        by (auto simp: in_zip_upt)
      then have "?ks ! m \<in> set ?ks" by simp
      with p(3) have "wellFormed (?ks ! m)" by (rule wellFormed_sub)
      with m show ?thesis by simp
    qed
  qed
  have newfst: "map fst ?new = [length ?fl..<length ?fl + length ?ks]"
    by simp
  have restlt: "i < length ?fl" if "i \<in> set (map fst ?rest)" for i
  proof -
    from that obtain q where "q \<in> set ?rest" "i = fst q" by auto
    with setp old show ?thesis by auto
  qed
  have "set (map fst ?rest) \<inter> set (map fst ?new) = {}"
  proof (rule ccontr)
    assume "set (map fst ?rest) \<inter> set (map fst ?new) \<noteq> {}"
    then obtain i where i: "i \<in> set (map fst ?rest)" "i \<in> set (map fst ?new)" by blast
    from i(2) have "i \<in> {length ?fl..<length ?fl + length ?ks}"
      by (simp only: newfst set_upt)
    then have "length ?fl \<le> i" by simp
    with restlt [OF i(1)] show False by simp
  qed
  moreover have "distinct (map fst ?new)" by (simp only: newfst distinct_upt)
  ultimately have b': "distinct (map fst (?rest @ ?new))"
    using drest by (simp only: map_append distinct_append)
  have c: "\<forall>i < length (?fl @ ?ks). i \<notin> fst ` set (?rest @ ?new) \<longrightarrow> blockAfter (?fl @ ?ks) i"
  proof (intro allI impI)
    fix i assume i: "i < length (?fl @ ?ks)" and notin: "i \<notin> fst ` set (?rest @ ?new)"
    have "set (map fst ?new) = {length ?fl..<length ?fl + length ?ks}"
      by (simp only: newfst set_upt)
    then have "fst ` set ?new = {length ?fl..<length ?fl + length ?ks}"
      by (simp only: set_map)
    moreover from notin have "i \<notin> fst ` set ?new"
      by (simp only: set_append image_Un) blast
    ultimately have "i \<notin> {length ?fl..<length ?fl + length ?ks}"
      by simp
    with i have ilt: "i < length ?fl" by simp
    show "blockAfter (?fl @ ?ks) i"
    proof (cases "i = fst ?p")
      case True
      with p ilt have "(?fl @ ?ks) ! i = snd ?p" by (simp add: nth_append)
      then show ?thesis using ilt
        by (auto simp: blockAfter_def intro!: exI [of _ "length ?fl"])
    next
      case False
      with notin setp have "i \<notin> fst ` set (pending b)" by (auto simp: image_Un)
      with blocks ilt have "blockAfter ?fl i" by simp
      then show ?thesis using ilt by (rule blockAfter_append)
    qed
  qed
  have "awaited ?rest + mset (tl (dfs (snd ?p))) = awaited (pending b)"
    using k by (rule awaited_remove)
  moreover have "awaited ?new = sum_list (map (\<lambda>f. mset (tl (dfs f))) ?ks)"
    by (rule awaited_zip) simp
  moreover have "mset (tl (dfs (snd ?p))) = mset ?ks + sum_list (map (\<lambda>f. mset (tl (dfs f))) ?ks)"
    by (rule mset_tl_dfs)
  ultimately have "mset (?fl @ ?ks) + awaited (?rest @ ?new) = mset ?fl + awaited (pending b)"
    by (simp add: awaited_append ac_simps)
  with count have d: "mset (?fl @ ?ks) + awaited (?rest @ ?new) = mset (dfs page)" by simp
  show ?thesis
    unfolding consistent_def fr pe using a b' c d by blast
qed

lemma settle_consistent:
  "consistent page b \<Longrightarrow>
   consistent page (settle choices b) \<and> pending (settle choices b) = []"
proof (induction choices b rule: settle.induct)
  case (1 choices b)
  show ?case
  proof (cases "pending b = []")
    case True
    with 1 show ?thesis by (simp add: settle.simps)
  next
    case False
    let ?k = "pick choices (length (pending b))"
    let ?p = "pending b ! ?k"
    let ?b1 = "b\<lparr>pending := take ?k (pending b) @ drop (Suc ?k) (pending b)\<rparr>"
    from False have k: "?k < length (pending b)" by (simp add: pick_less)
    with "1.prems" have "consistent page (answer ?p ?b1)" by (rule consistent_step)
    with False have "consistent page (settle (tl choices) (answer ?p ?b1)) \<and>
        pending (settle (tl choices) (answer ?p ?b1)) = []"
      by (intro "1.IH") simp_all
    moreover from False have "settle choices b = settle (tl choices) (answer ?p ?b1)"
      by (subst settle.simps) (simp add: Let_def)
    ultimately show ?thesis by simp
  qed
qed

lemma answer_frames_prefix: "\<exists>xs. frames (answer p b) = frames b @ xs"
proof (cases "ariaSnapshot (snd p)")
  case None
  then show ?thesis by (simp add: answer_def)
next
  case (Some doc)
  then show ?thesis
    using visitContents_frames [of "snd p" "fst p" doc "frames b"]
    by (cases "visitContents (snd p) (fst p) doc (frames b)") (simp add: answer_def)
qed

lemma settle_frames_prefix: "\<exists>xs. frames (settle choices b) = frames b @ xs"
proof (induction choices b rule: settle.induct)
  case (1 choices b)
  show ?case
  proof (cases "pending b = []")
    case True
    then show ?thesis by (simp add: settle.simps)
  next
    case False
    let ?k = "pick choices (length (pending b))"
    let ?p = "pending b ! ?k"
    let ?b1 = "b\<lparr>pending := take ?k (pending b) @ drop (Suc ?k) (pending b)\<rparr>"
    from False have "\<exists>xs. frames (settle (tl choices) (answer ?p ?b1)) = frames (answer ?p ?b1) @ xs"
      by (intro "1.IH") simp_all
    moreover have "\<exists>ys. frames (answer ?p ?b1) = frames ?b1 @ ys"
      by (rule answer_frames_prefix)
    moreover from False have "settle choices b = settle (tl choices) (answer ?p ?b1)"
      by (subst settle.simps) (simp add: Let_def)
    ultimately show ?thesis by auto
  qed
qed


lemma settle_start:
  "settle choices (start page) =
     settle (tl choices) (answer (0, page) ((start page)\<lparr>pending := []\<rparr>))"
  by (subst settle.simps) (simp add: start_def Let_def pick_def split: list.splits)

lemma build_wellFormed:
  assumes "wellFormed page"
  shows "\<exists>b. build choices page = Inr b \<and> consistent page b \<and> pending b = [] \<and>
           (\<exists>xs. frames b = page # nestedFrames page @ xs)"
proof -
  from assms obtain doc where doc: "ariaSnapshot page = Some doc"
    using wellFormed_nested by blast
  have b: "build choices page = Inr (settle choices (start page))"
    using doc by (simp add: build_def)
  have "mset (dfs page) = {#page#} + mset (tl (dfs page))"
    by (cases page) simp
  with assms have "consistent page (start page)"
    by (simp add: consistent_def start_def awaited_def)
  then have c: "consistent page (settle choices (start page)) \<and>
      pending (settle choices (start page)) = []"
    by (rule settle_consistent)
  let ?b1 = "answer (0, page) ((start page)\<lparr>pending := []\<rparr>)"
  have "frames ?b1 = [page] @ nestedFrames page"
    using answer_wellFormed(1) [of "(0, page)" "(start page)\<lparr>pending := []\<rparr>"] assms
    by (simp add: start_def)
  moreover obtain xs where "frames (settle (tl choices) ?b1) = frames ?b1 @ xs"
    using settle_frames_prefix by blast
  ultimately have "frames (settle choices (start page)) = page # nestedFrames page @ xs"
    by (simp add: settle_start)
  with b c show ?thesis by blast
qed

text \<open>
  Claim C1, as amended. Take a page whose frame tree holds N nested iframes and is well
  formed (\<open>wellFormed\<close>): the aria snapshot of every frame of the tree can be taken, and
  the string scalars of its document that start with \<open>iframe\<close> and a space and carry a
  \<open>[ref=...]\<close> marker are, in document order, the references of exactly the iframes of
  that frame, each iframe once, no two under the same reference. Then one capture produces
  exactly N + 1 frame captures, whatever the order in which the driver answers: the page
  at index 0, and the frames of the tree, each once. Every visit of a frame appends the
  frame before its own iframes are looked at, and appends the iframes of one frame
  together, in document order, so that they hold consecutive indices after the frame's
  own; the iframes of the page hold the indices from 1 on. (Depth-first order it is not:
  an iframe nested in the first iframe of the page comes after the page's last iframe.)
\<close>

theorem snapshot_frames:
  assumes "wellFormed page"
  shows "\<exists>s. create toString choices page = Inr s \<and>
           length (frameLocators s) = iframeCount page + 1 \<and>
           frameLocators s ! 0 = page \<and>
           mset (frameLocators s) = mset (dfs page) \<and>
           take (length (nestedFrames page)) (tl (frameLocators s)) = nestedFrames page \<and>
           (\<forall>i < length (frameLocators s). blockAfter (frameLocators s) i)"
proof -
  from assms obtain b xs where b: "build choices page = Inr b" "consistent page b"
    "pending b = []" "frames b = page # nestedFrames page @ xs"
    using build_wellFormed by blast
  from b(2,3) have m: "mset (frames b) = mset (dfs page)"
    and blocks: "\<forall>i < length (frames b). blockAfter (frames b) i"
    by (simp_all add: consistent_def awaited_def)
  from m have "size (mset (frames b)) = size (mset (dfs page))" by simp
  then have "length (frames b) = iframeCount page + 1" by (simp add: length_dfs)
  with b m blocks show ?thesis by (simp add: create_def)
qed


theorem snapshot_frames_witness:
  "wellFormed examplePage \<and>
   (\<exists>s. create (\<lambda>n. []) [] examplePage = Inr s \<and> length (frameLocators s) = 4 \<and>
        frameLocators s ! 0 = examplePage \<and> take 2 (tl (frameLocators s)) = [frameA, frameB])"
proof -
  have wf: "wellFormed examplePage" by code_simp
  have n: "iframeCount examplePage = 3" by code_simp
  have k: "nestedFrames examplePage = [frameA, frameB]"
    by (simp add: nestedFrames_def examplePage_def)
  from snapshot_frames [OF wf, of "\<lambda>n. []" "[]"] wf n k show ?thesis
    by (auto simp: numeral_2_eq_2)
qed

text \<open>
  The claim as stated fails on the example page: whether the driver answers for the first
  iframe or for the second one first, the iframe nested in the first gets index 3, and
  depth-first order would give it index 2.
\<close>

theorem snapshot_frames_counterexample:
  "wellFormed examplePage \<and>
   (case build [] examplePage of
      Inr b \<Rightarrow> frames b = [examplePage, frameA, frameB, frameC]
    | Inl e \<Rightarrow> False) \<and>
   (case build [0, 1] examplePage of
      Inr b \<Rightarrow> frames b = [examplePage, frameA, frameB, frameC]
    | Inl e \<Rightarrow> False) \<and>
   dfs examplePage = [examplePage, frameA, frameC, frameB] \<and>
   [examplePage, frameA, frameB, frameC] \<noteq> [examplePage, frameA, frameC, frameB]"
  by code_simp

text \<open>
  Why the page has to be well formed. The code counts the lines of the aria snapshots, not
  the frames of the page: a text that reads like the line of an iframe is taken for one
  and adds a frame capture, and an iframe that the aria snapshot does not show adds none.
  Both pages hold one iframe.
\<close>

lemma frame_count_follows_the_lines:
  "iframeCount spoofPage = 1 \<and> \<not> wellFormed spoofPage \<and>
   (case build [] spoofPage of
      Inr b \<Rightarrow> frames b = [spoofPage, frameB, frameB]
    | Inl e \<Rightarrow> False) \<and>
   iframeCount hiddenPage = 1 \<and> \<not> wellFormed hiddenPage \<and>
   (case build [] hiddenPage of
      Inr b \<Rightarrow> frames b = [hiddenPage]
    | Inl e \<Rightarrow> False)"
  by code_simp

section \<open>Properties of the visit of a document\<close>

lemma nodeAt_fill:
  "nodeAt path c = Some x \<Longrightarrow> nodeAt path (fill i r c) = Some (fill i r x)"
proof (induction path c rule: nodeAt.induct)
qed (auto split: if_splits)

lemma nodeAt_append:
  "nodeAt p c = Some x \<Longrightarrow> nodeAt (p @ q) c = nodeAt q x"
proof (induction p c rule: nodeAt.induct)
qed (auto split: if_splits)

lemma visit_length:
  "length (fst (visitItems fr i ns fl)) = length ns"
proof (induction ns arbitrary: fl)
  case Nil
  then show ?case by simp
next
  case (Cons n ns)
  obtain n' fl1 where v: "visit fr i n fl = (n', fl1)" by (cases "visit fr i n fl")
  obtain ns' fl2 where vs: "visitItems fr i ns fl1 = (ns', fl2)" by (cases "visitItems fr i ns fl1")
  from Cons [of fl1] vs have "length ns' = length ns" by simp
  with v vs show ?case by simp
qed

lemma visit_mono:
  "length fl \<le> length (snd (visit fr i n fl))"
  "length fl \<le> length (snd (visitItems fr i ns fl))"
  by (simp_all add: visit_frames)

lemma visitItems_nth:
  "k < length ns \<Longrightarrow>
   \<exists>fl1. fst (visitItems fr i ns fl) ! k = fst (visit fr i (ns ! k) fl1) \<and>
         length fl \<le> length fl1 \<and>
         length (snd (visit fr i (ns ! k) fl1)) \<le> length (snd (visitItems fr i ns fl)) \<and>
         (\<forall>j < length (snd (visit fr i (ns ! k) fl1)).
            snd (visitItems fr i ns fl) ! j = snd (visit fr i (ns ! k) fl1) ! j)"
proof (induction ns arbitrary: fl k)
  case Nil
  then show ?case by simp
next
  case (Cons n ns)
  obtain n' fl1 where v: "visit fr i n fl = (n', fl1)" by (cases "visit fr i n fl")
  obtain ns' fl2 where vs: "visitItems fr i ns fl1 = (ns', fl2)" by (cases "visitItems fr i ns fl1")
  have fl1: "fl1 = fl @ map (frameLocator fr) (iframeRefs n)"
    using visit_frames(1) [of fr i n fl] v by simp
  have fl2: "fl2 = fl1 @ map (frameLocator fr) (concat (map iframeRefs ns))"
    using visit_frames(2) [of fr i ns fl1] vs by simp
  show ?case
  proof (cases k)
    case 0
    with v vs fl2 show ?thesis
      by (auto simp: Let_def nth_append intro!: exI [of _ fl])
  next
    case (Suc k')
    with Cons.prems have "k' < length ns" by simp
    from Cons.IH [OF this, of fl1] obtain fl3 where
      "fst (visitItems fr i ns fl1) ! k' = fst (visit fr i (ns ! k') fl3)"
      "length fl1 \<le> length fl3"
      "length (snd (visit fr i (ns ! k') fl3)) \<le> length (snd (visitItems fr i ns fl1))"
      "\<forall>j < length (snd (visit fr i (ns ! k') fl3)).
            snd (visitItems fr i ns fl1) ! j = snd (visit fr i (ns ! k') fl3) ! j"
      by blast
    with v vs fl1 Suc show ?thesis
      by (auto simp: Let_def intro!: exI [of _ fl3])
  qed
qed

lemma visit_at:
  assumes "nodeAt p n = Some (Scalar value)" "isIframe value ref"
  shows "\<exists>j. nodeAt p (fst (visit fr i n fl)) = Some (YAMLPair (Scalar (rewriteRef i value)) (Await j)) \<and>
             length fl \<le> j \<and> j < length (snd (visit fr i n fl)) \<and>
             snd (visit fr i n fl) ! j = frameLocator fr ref"
  using assms(1)
proof (induction p n arbitrary: fl rule: nodeAt.induct)
  case (1 n)
  with assms(2) show ?case by (auto simp: isIframe_def Let_def)
next
  case (2 k path key val)
  obtain k' fl1 where vk: "visit fr i key fl = (k', fl1)" by (cases "visit fr i key fl")
  obtain v' fl2 where vv: "visit fr i val fl1 = (v', fl2)" by (cases "visit fr i val fl1")
  have fl1: "fl1 = fl @ map (frameLocator fr) (iframeRefs key)"
    using visit_frames(1) [of fr i key fl] vk by simp
  have fl2: "fl2 = fl1 @ map (frameLocator fr) (iframeRefs val)"
    using visit_frames(1) [of fr i val fl1] vv by simp
  show ?case
  proof (cases "k = 0")
    case True
    with 2 have "nodeAt path key = Some (Scalar value)" by simp
    with True "2.IH"(1) [of fl] obtain j where
      "nodeAt path (fst (visit fr i key fl)) = Some (YAMLPair (Scalar (rewriteRef i value)) (Await j))"
      "length fl \<le> j" "j < length (snd (visit fr i key fl))"
      "snd (visit fr i key fl) ! j = frameLocator fr ref"
      by blast
    with True vk vv fl2 show ?thesis
      by (auto simp: nth_append intro!: exI [of _ j])
  next
    case False
    with 2 have k1: "k = 1" and at: "nodeAt path val = Some (Scalar value)"
      by (auto split: if_splits)
    with False "2.IH"(2) [of fl1] obtain j where
      "nodeAt path (fst (visit fr i val fl1)) = Some (YAMLPair (Scalar (rewriteRef i value)) (Await j))"
      "length fl1 \<le> j" "j < length (snd (visit fr i val fl1))"
      "snd (visit fr i val fl1) ! j = frameLocator fr ref"
      by blast
    with k1 vk vv fl1 show ?thesis
      by (auto intro!: exI [of _ j])
  qed
next
  case (3 k path items)
  then have k: "k < length items" and at: "nodeAt path (items ! k) = Some (Scalar value)"
    by (auto split: if_splits)
  from visitItems_nth [OF k, of fr i fl] obtain fl1 where fl1:
    "fst (visitItems fr i items fl) ! k = fst (visit fr i (items ! k) fl1)"
    "length fl \<le> length fl1"
    "length (snd (visit fr i (items ! k) fl1)) \<le> length (snd (visitItems fr i items fl))"
    "\<forall>j < length (snd (visit fr i (items ! k) fl1)).
       snd (visitItems fr i items fl) ! j = snd (visit fr i (items ! k) fl1) ! j"
    by blast
  from "3.IH" [OF k at, of fl1] obtain j where j:
    "nodeAt path (fst (visit fr i (items ! k) fl1)) = Some (YAMLPair (Scalar (rewriteRef i value)) (Await j))"
    "length fl1 \<le> j" "j < length (snd (visit fr i (items ! k) fl1))"
    "snd (visit fr i (items ! k) fl1) ! j = frameLocator fr ref"
    by blast
  from k have len: "k < length (fst (visitItems fr i items fl))" by (simp add: visit_length)
  show ?case
    using k len fl1 j
    by (cases "visitItems fr i items fl") (auto simp: Let_def intro!: exI [of _ j])
next
  case (4 k path items)
  then have k: "k < length items" and at: "nodeAt path (items ! k) = Some (Scalar value)"
    by (auto split: if_splits)
  from visitItems_nth [OF k, of fr i fl] obtain fl1 where fl1:
    "fst (visitItems fr i items fl) ! k = fst (visit fr i (items ! k) fl1)"
    "length fl \<le> length fl1"
    "length (snd (visit fr i (items ! k) fl1)) \<le> length (snd (visitItems fr i items fl))"
    "\<forall>j < length (snd (visit fr i (items ! k) fl1)).
       snd (visitItems fr i items fl) ! j = snd (visit fr i (items ! k) fl1) ! j"
    by blast
  from "4.IH" [OF k at, of fl1] obtain j where j:
    "nodeAt path (fst (visit fr i (items ! k) fl1)) = Some (YAMLPair (Scalar (rewriteRef i value)) (Await j))"
    "length fl1 \<le> j" "j < length (snd (visit fr i (items ! k) fl1))"
    "snd (visit fr i (items ! k) fl1) ! j = frameLocator fr ref"
    by blast
  from k have len: "k < length (fst (visitItems fr i items fl))" by (simp add: visit_length)
  show ?case
    using k len fl1 j
    by (cases "visitItems fr i items fl") (auto simp: Let_def intro!: exI [of _ j])
qed simp_all

lemma visitContents_at:
  assumes "nodeAt p n = Some (Scalar value)" "isIframe value ref" "p \<noteq> []"
  shows "\<exists>j. nodeAt p (fst (visitContents fr i n fl)) = Some (YAMLPair (Scalar (rewriteRef i value)) (Await j)) \<and>
             length fl \<le> j \<and> j < length (snd (visitContents fr i n fl)) \<and>
             snd (visitContents fr i n fl) ! j = frameLocator fr ref"
proof -
  from assms(1,3) have "\<And>v. n \<noteq> Scalar v" by (cases p) auto
  then have "visitContents fr i n fl = visit fr i n fl"
    by (cases "visit fr i n fl") (auto simp: visitContents_def split: node.splits)
  with visit_at [OF assms(1,2), of fr i fl] show ?thesis by simp
qed

lemma answer_shape:
  "\<exists>ks n. frames (answer p b) = frames b @ ks \<and>
     pending (answer p b) = pending b @ zip [length (frames b)..<length (frames b) + length ks] ks \<and>
     contents (answer p b) = fill (fst p) n (contents b)"
proof (cases "ariaSnapshot (snd p)")
  case None
  then show ?thesis
    by (auto simp: answer_def intro!: exI [of _ "[]"])
next
  case (Some doc)
  obtain n fl where v: "visitContents (snd p) (fst p) doc (frames b) = (n, fl)"
    by (cases "visitContents (snd p) (fst p) doc (frames b)")
  have "fl = frames b @ map (frameLocator (snd p)) (iframeRefs doc)"
    using visitContents_frames [of "snd p" "fst p" doc "frames b"] v by simp
  with Some v show ?thesis
    by (auto simp: answer_def intro!: exI [of _ "map (frameLocator (snd p)) (iframeRefs doc)"])
qed

lemma orderly_step:
  assumes "orderly b" "k < length (pending b)"
  shows "orderly (answer (pending b ! k) (b\<lparr>pending := take k (pending b) @ drop (Suc k) (pending b)\<rparr>))"
proof -
  let ?p = "pending b ! k"
  let ?rest = "take k (pending b) @ drop (Suc k) (pending b)"
  let ?b1 = "b\<lparr>pending := ?rest\<rparr>"
  let ?fl = "frames b"
  from answer_shape [of ?p ?b1] obtain ks where
    fr: "frames (answer ?p ?b1) = ?fl @ ks" and
    pe: "pending (answer ?p ?b1) = ?rest @ zip [length ?fl..<length ?fl + length ks] ks"
    by auto
  let ?new = "zip [length ?fl..<length ?fl + length ks] ks"
  from assms have dist: "distinct (map fst (pending b))"
    and old: "\<forall>q \<in> set (pending b). fst q < length ?fl"
    by (simp_all add: orderly_def)
  have setp: "set (pending b) = insert ?p (set ?rest)"
    using assms(2) by (rule set_remove_nth)
  have drest: "distinct (map fst ?rest)"
    using distinct_remove_nth(1) [OF assms(2) dist] .
  have newfst: "map fst ?new = [length ?fl..<length ?fl + length ks]" by simp
  have restlt: "i < length ?fl" if "i \<in> set (map fst ?rest)" for i
  proof -
    from that obtain q where "q \<in> set ?rest" "i = fst q" by auto
    with setp old show ?thesis by auto
  qed
  have "set (map fst ?rest) \<inter> set (map fst ?new) = {}"
  proof (rule ccontr)
    assume "set (map fst ?rest) \<inter> set (map fst ?new) \<noteq> {}"
    then obtain i where i: "i \<in> set (map fst ?rest)" "i \<in> set (map fst ?new)" by blast
    from i(2) have "i \<in> {length ?fl..<length ?fl + length ks}"
      by (simp only: newfst set_upt)
    then have "length ?fl \<le> i" by simp
    with restlt [OF i(1)] show False by simp
  qed
  moreover have "distinct (map fst ?new)" by (simp only: newfst distinct_upt)
  ultimately have d: "distinct (map fst (?rest @ ?new))"
    using drest by (simp only: map_append distinct_append)
  have "\<forall>q \<in> set (?rest @ ?new). fst q < length (?fl @ ks)"
  proof
    fix q assume "q \<in> set (?rest @ ?new)"
    then consider "q \<in> set ?rest" | "q \<in> set ?new" by auto
    then show "fst q < length (?fl @ ks)"
    proof cases
      case 1
      with setp have "q \<in> set (pending b)" by simp
      with old have "fst q < length ?fl" by blast
      then show ?thesis by simp
    next
      case 2
      then obtain m where "m < length ks" "q = (length ?fl + m, ks ! m)"
        by (auto simp: in_zip_upt)
      then show ?thesis by simp
    qed
  qed
  with d show ?thesis by (simp only: orderly_def fr pe)
qed

lemma pending_other:
  assumes "distinct (map fst ps)" "k < length ps" "(j, f) \<in> set ps" "ps ! k \<noteq> (j, f)"
  shows "fst (ps ! k) \<noteq> j" "(j, f) \<in> set (take k ps @ drop (Suc k) ps)"
proof -
  from assms(3) obtain m where m: "m < length ps" "ps ! m = (j, f)"
    by (auto simp: in_set_conv_nth)
  with assms(4) have "m \<noteq> k" by auto
  with assms(1,2) m have "map fst ps ! k \<noteq> map fst ps ! m"
    by (simp add: nth_eq_iff_index_eq del: nth_map)
  with assms(2) m show "fst (ps ! k) \<noteq> j" by simp
  from set_remove_nth [OF assms(2)] assms(3,4)
  show "(j, f) \<in> set (take k ps @ drop (Suc k) ps)" by auto
qed

lemma settling_step:
  assumes s: "settling path (Scalar v) child b" and k: "k < length (pending b)"
    and fails: "ariaSnapshot child = None"
  shows "settling path (Scalar v) child
           (answer (pending b ! k) (b\<lparr>pending := take k (pending b) @ drop (Suc k) (pending b)\<rparr>))"
proof -
  let ?p = "pending b ! k"
  let ?rest = "take k (pending b) @ drop (Suc k) (pending b)"
  let ?b1 = "b\<lparr>pending := ?rest\<rparr>"
  let ?b' = "answer ?p ?b1"
  from s have ord: "orderly b" by (simp add: settling_def)
  then have ord': "orderly ?b'" using k by (rule orderly_step)
  from answer_shape [of ?p ?b1] obtain ks n where
    pe: "pending ?b' = ?rest @ zip [length (frames b)..<length (frames b) + length ks] ks" and
    co: "contents ?b' = fill (fst ?p) n (contents b)"
    by auto
  from s consider j where "(j, child) \<in> set (pending b)"
      "nodeAt path (contents b) = Some (YAMLPair (Scalar v) (Await j))"
    | "nodeAt path (contents b) = Some (YAMLPair (Scalar v) (Scalar placeholder))"
    by (auto simp: settling_def)
  then show ?thesis
  proof cases
    case 1
    show ?thesis
    proof (cases "?p = (j, child)")
      case True
      with fails have "contents ?b' = fill j (Scalar placeholder) (contents b)"
        by (simp add: answer_def)
      with 1(2) have "nodeAt path (contents ?b') = Some (YAMLPair (Scalar v) (Scalar placeholder))"
        using nodeAt_fill [of path "contents b" _ j "Scalar placeholder"] by simp
      with ord' show ?thesis by (simp add: settling_def)
    next
      case False
      from ord have "distinct (map fst (pending b))" by (simp add: orderly_def)
      from pending_other [OF this k 1(1) False]
      have ne: "fst ?p \<noteq> j" and still: "(j, child) \<in> set ?rest" by simp_all
      from 1(2) co ne have "nodeAt path (contents ?b') = Some (YAMLPair (Scalar v) (Await j))"
        using nodeAt_fill [of path "contents b" _ "fst ?p" n] by simp
      moreover from still have "(j, child) \<in> set (pending ?b')"
        by (simp only: pe set_append) blast
      ultimately show ?thesis using ord' by (auto simp: settling_def)
    qed
  next
    case 2
    with co have "nodeAt path (contents ?b') = Some (YAMLPair (Scalar v) (Scalar placeholder))"
      using nodeAt_fill [of path "contents b" _ "fst ?p" n] by simp
    with ord' show ?thesis by (simp add: settling_def)
  qed
qed

lemma settling_settle:
  assumes "ariaSnapshot child = None"
  shows "settling path (Scalar v) child b \<Longrightarrow>
         nodeAt path (contents (settle choices b)) = Some (YAMLPair (Scalar v) (Scalar placeholder))"
proof (induction choices b rule: settle.induct)
  case (1 choices b)
  show ?case
  proof (cases "pending b = []")
    case True
    with "1.prems" show ?thesis by (simp add: settle.simps settling_def)
  next
    case False
    let ?k = "pick choices (length (pending b))"
    let ?p = "pending b ! ?k"
    let ?b1 = "b\<lparr>pending := take ?k (pending b) @ drop (Suc ?k) (pending b)\<rparr>"
    from False have k: "?k < length (pending b)" by (simp add: pick_less)
    with "1.prems" assms have "settling path (Scalar v) child (answer ?p ?b1)"
      by (intro settling_step)
    with False have "nodeAt path (contents (settle (tl choices) (answer ?p ?b1)))
        = Some (YAMLPair (Scalar v) (Scalar placeholder))"
      by (intro "1.IH") simp_all
    moreover from False have "settle choices b = settle (tl choices) (answer ?p ?b1)"
      by (subst settle.simps) (simp add: Let_def)
    ultimately show ?thesis by simp
  qed
qed

lemma expecting_step:
  assumes e: "expecting p0 i parent b" and k: "k < length (pending b)"
    and doc: "ariaSnapshot parent = Some doc"
    and at: "nodeAt p1 doc = Some (Scalar value)" "p1 \<noteq> []" and iframe: "isIframe value ref"
  shows "expecting p0 i parent
           (answer (pending b ! k) (b\<lparr>pending := take k (pending b) @ drop (Suc k) (pending b)\<rparr>)) \<or>
         settling (p0 @ p1) (Scalar (rewriteRef i value)) (frameLocator parent ref)
           (answer (pending b ! k) (b\<lparr>pending := take k (pending b) @ drop (Suc k) (pending b)\<rparr>))"
proof -
  let ?p = "pending b ! k"
  let ?rest = "take k (pending b) @ drop (Suc k) (pending b)"
  let ?b1 = "b\<lparr>pending := ?rest\<rparr>"
  let ?b' = "answer ?p ?b1"
  let ?fl = "frames b"
  from e have ord: "orderly b" and pin: "(i, parent) \<in> set (pending b)"
    and hole: "nodeAt p0 (contents b) = Some (Await i)"
    by (simp_all add: expecting_def)
  from ord k have ord': "orderly ?b'" by (rule orderly_step)
  show ?thesis
  proof (cases "?p = (i, parent)")
    case True
    obtain n fl where v: "visitContents parent i doc ?fl = (n, fl)"
      by (cases "visitContents parent i doc ?fl")
    from visitContents_at [OF at(1) iframe at(2), of parent i ?fl] v obtain j where j:
      "nodeAt p1 n = Some (YAMLPair (Scalar (rewriteRef i value)) (Await j))"
      "length ?fl \<le> j" "j < length fl" "fl ! j = frameLocator parent ref"
      by auto
    from True doc v have co: "contents ?b' = fill i n (contents b)"
      and pe: "pending ?b' = ?rest @ zip [length ?fl..<length fl] (drop (length ?fl) fl)"
      by (simp_all add: answer_def)
    from hole co have "nodeAt p0 (contents ?b') = Some n"
      using nodeAt_fill [of p0 "contents b" "Await i" i n] by simp
    then have "nodeAt (p0 @ p1) (contents ?b') = nodeAt p1 n"
      by (rule nodeAt_append)
    with j(1) have n1: "nodeAt (p0 @ p1) (contents ?b')
        = Some (YAMLPair (Scalar (rewriteRef i value)) (Await j))" by simp
    from j have "j - length ?fl < length (drop (length ?fl) fl)"
      "[length ?fl..<length fl] ! (j - length ?fl) = j"
      "drop (length ?fl) fl ! (j - length ?fl) = frameLocator parent ref"
      by simp_all
    then have "(j, frameLocator parent ref) \<in> set (zip [length ?fl..<length fl] (drop (length ?fl) fl))"
      by (auto simp: in_set_zip intro!: exI [of _ "j - length ?fl"])
    then have "(j, frameLocator parent ref) \<in> set (pending ?b')"
      by (simp only: pe set_append) blast
    with n1 ord' show ?thesis by (auto simp: settling_def)
  next
    case False
    from ord have "distinct (map fst (pending b))" by (simp add: orderly_def)
    from pending_other [OF this k pin False]
    have ne: "fst ?p \<noteq> i" and still: "(i, parent) \<in> set ?rest" by simp_all
    from answer_shape [of ?p ?b1] obtain ks n where
      pe: "pending ?b' = ?rest @ zip [length ?fl..<length ?fl + length ks] ks" and
      co: "contents ?b' = fill (fst ?p) n (contents b)"
      by auto
    from hole co ne have "nodeAt p0 (contents ?b') = Some (Await i)"
      using nodeAt_fill [of p0 "contents b" "Await i" "fst ?p" n] by simp
    moreover from still have "(i, parent) \<in> set (pending ?b')"
      by (simp only: pe set_append) blast
    ultimately show ?thesis using ord' by (simp add: expecting_def)
  qed
qed

lemma expecting_settle:
  assumes doc: "ariaSnapshot parent = Some doc"
    and at: "nodeAt p1 doc = Some (Scalar value)" "p1 \<noteq> []" and iframe: "isIframe value ref"
    and fails: "ariaSnapshot (frameLocator parent ref) = None"
  shows "expecting p0 i parent b \<Longrightarrow>
         nodeAt (p0 @ p1) (contents (settle choices b))
           = Some (YAMLPair (Scalar (rewriteRef i value)) (Scalar placeholder))"
proof (induction choices b rule: settle.induct)
  case (1 choices b)
  show ?case
  proof (cases "pending b = []")
    case True
    with "1.prems" show ?thesis by (simp add: expecting_def)
  next
    case False
    let ?k = "pick choices (length (pending b))"
    let ?p = "pending b ! ?k"
    let ?b1 = "b\<lparr>pending := take ?k (pending b) @ drop (Suc ?k) (pending b)\<rparr>"
    from False have k: "?k < length (pending b)" by (simp add: pick_less)
    from False have unfold: "settle choices b = settle (tl choices) (answer ?p ?b1)"
      by (subst settle.simps) (simp add: Let_def)
    from expecting_step [OF "1.prems" k doc at iframe]
    consider "expecting p0 i parent (answer ?p ?b1)"
      | "settling (p0 @ p1) (Scalar (rewriteRef i value)) (frameLocator parent ref) (answer ?p ?b1)"
      by blast
    then show ?thesis
    proof cases
      case 1
      with False have "nodeAt (p0 @ p1) (contents (settle (tl choices) (answer ?p ?b1)))
          = Some (YAMLPair (Scalar (rewriteRef i value)) (Scalar placeholder))"
        by (intro "1.IH") simp_all
      with unfold show ?thesis by simp
    next
      case 2
      with fails have "nodeAt (p0 @ p1) (contents (settle (tl choices) (answer ?p ?b1)))
          = Some (YAMLPair (Scalar (rewriteRef i value)) (Scalar placeholder))"
        by (intro settling_settle)
      with unfold show ?thesis by simp
    qed
  qed
qed

text \<open>
  Claim C3. Take any moment of a capture at which the snapshot of a frame, the parent, is
  awaited at a path of the document, and suppose the parent's aria snapshot arrives and
  holds, below its top, an iframe line whose own snapshot attempt throws. Then the capture
  runs to its end, the parent's document stands where it was awaited, and in it the node
  of that iframe is a pair whose value is exactly the string
  \<open><could not take iframe snapshot>\<close> (its key is the line, rewritten for the parent's
  index). The page itself is such a parent, awaited at the top with index 0.
\<close>

theorem nested_failure_placeholder:
  assumes "orderly b" "(i, parent) \<in> set (pending b)" "nodeAt p0 (contents b) = Some (Await i)"
    and "ariaSnapshot parent = Some doc"
    and "nodeAt p1 doc = Some (Scalar value)" "p1 \<noteq> []"
    and "startsWith value ''iframe ''" "matchRef value = Some ref" "ref \<noteq> []"
    and "ariaSnapshot (frameLocator parent ref) = None"
  shows "nodeAt (p0 @ p1) (contents (settle choices b))
           = Some (YAMLPair (Scalar (rewriteRef i value)) (Scalar placeholder))"
proof -
  from assms(1-3) have "expecting p0 i parent b" by (simp add: expecting_def)
  moreover from assms(7-9) have "isIframe value ref" by (simp add: isIframe_def)
  ultimately show ?thesis
    using assms(4-6,10) by (intro expecting_settle)
qed

lemma build_placeholder:
  assumes "ariaSnapshot page = Some doc"
    and "nodeAt p1 doc = Some (Scalar value)" "p1 \<noteq> []"
    and "startsWith value ''iframe ''" "matchRef value = Some ref" "ref \<noteq> []"
    and "ariaSnapshot (frameLocator page ref) = None"
  shows "\<exists>b. build choices page = Inr b \<and>
           nodeAt p1 (contents b) = Some (YAMLPair (Scalar value) (Scalar placeholder))"
proof -
  have "expecting [] 0 page (start page)"
    by (simp add: expecting_def orderly_def start_def)
  moreover from assms(4-6) have "isIframe value ref" by (simp add: isIframe_def)
  ultimately have "nodeAt ([] @ p1) (contents (settle choices (start page)))
      = Some (YAMLPair (Scalar (rewriteRef 0 value)) (Scalar placeholder))"
    using assms(1-3,7) by (intro expecting_settle)
  with assms(1) show ?thesis by (simp add: build_def rewriteRef_def)
qed

theorem nested_failure_placeholder_witness:
  "build [] brokenPage = Inr (settle [] (start brokenPage)) \<and>
   nodeAt [1] (contents (settle [] (start brokenPage)))
     = Some (YAMLPair (Scalar ''iframe [ref=e2]'') (Scalar ''<could not take iframe snapshot>''))"
proof -
  have 1: "orderly (start brokenPage)" by (simp add: orderly_def start_def)
  have 2: "(0, brokenPage) \<in> set (pending (start brokenPage))" by (simp add: start_def)
  have 3: "nodeAt [] (contents (start brokenPage)) = Some (Await 0)" by (simp add: start_def)
  have 4: "ariaSnapshot brokenPage
      = Some (YAMLSeq [Scalar ''heading \"News\" [ref=e1]'', Scalar ''iframe [ref=e2]''])"
    by (simp add: brokenPage_def)
  have 5: "nodeAt [1] (YAMLSeq [Scalar ''heading \"News\" [ref=e1]'', Scalar ''iframe [ref=e2]''])
      = Some (Scalar ''iframe [ref=e2]'')" by simp
  have 6: "[1::nat] \<noteq> []" by simp
  have 7: "startsWith ''iframe [ref=e2]'' ''iframe ''" by code_simp
  have 8: "matchRef ''iframe [ref=e2]'' = Some ''e2''" by code_simp
  have 9: "''e2'' \<noteq> []" by simp
  have 10: "ariaSnapshot (frameLocator brokenPage ''e2'') = None"
    by (simp add: brokenPage_def frameLocator_def detached_def)
  from nested_failure_placeholder [OF 1 2 3 4 5 6 7 8 9 10, of "[]"]
  show ?thesis by (simp add: build_def 4 rewriteRef_def placeholder_def)
qed

text \<open>
  Claim C5: what the code does on a line with two markers. In frame 1 the line
  \<open>link "[ref=x]" [ref=e5]\<close>, a link whose name holds the text of a marker, comes out with
  the prefix in the name only; the reference of the link itself stays \<open>e5\<close>, which
  \<open>refLocator\<close> reads as an element of frame 0.
\<close>

theorem visit_rewrites_first_marker_only:
  "visit fr 1 (Scalar ''link \"[ref=x]\" [ref=e5]'') fl
     = (Scalar ''link \"[ref=f1x]\" [ref=e5]'', fl) \<and>
   decode ''e5'' = (0, ''e5'')"
  by code_simp

section \<open>Properties of a run\<close>































end
